theory Spec2Isabelle
  imports Main "HOL-Library.Word"
begin

unbundle bit_operations_syntax

section \<open>Errors\<close>

text \<open>
  The C++ sources signal failure in two ways: by throwing a standard exception
  (\<open>std::invalid_argument\<close>, \<open>std::range_error\<close>) and, implicitly, by running into
  undefined behaviour (an out-of-range \<open>operator[]\<close> on a \<open>std::vector\<close>, a signed
  overflow).  Both are values of the model: every function that can fail returns
  \<open>error + 'a\<close> with \<open>Inl\<close> the failure.
\<close>

datatype error =
    invalid_argument      \<comment> \<open>\<open>throw std::invalid_argument(...)\<close>\<close>
  | range_error           \<comment> \<open>\<open>throw std::range_error(...)\<close>\<close>
  | out_of_bounds nat     \<comment> \<open>\<open>seq[i]\<close> with \<open>i >= seq.size()\<close>; carries \<open>i\<close>\<close>
  | signed_overflow       \<comment> \<open>overflow of a signed arithmetic operation\<close>

section \<open>partition/range.hpp\<close>

text \<open>
  \<open>template<typename T> struct range { T start; T end; T overlap; ... }\<close>.
  The comparisons, \<open>std::min\<close> and \<open>std::max\<close> of \<open>merge\<close> and \<open>intersect\<close> only
  use the order of \<open>T\<close>, so the template parameter is a type variable of class
  \<open>linorder\<close>.  (\<open>end\<close> is a keyword of Isabelle, hence the prefix of the field names.)
\<close>

record 'a range_t =
  r_start :: 'a
  r_end :: 'a
  r_overlap :: 'a

text \<open>The checking constructor \<open>range(_start, _end, _overlap)\<close>.\<close>

definition mk_range :: "'a::{linorder,zero} \<Rightarrow> 'a \<Rightarrow> 'a \<Rightarrow> error + 'a range_t" where
  "mk_range s e ov =
     (if e < s then Inl invalid_argument
      else if ov < 0 then Inl invalid_argument
      else Inr \<lparr>r_start = s, r_end = e, r_overlap = ov\<rparr>)"

text \<open>\<open>bool isDisjoint(const range<T> &other) const\<close>\<close>

definition isDisjoint :: "'a::linorder range_t \<Rightarrow> 'a range_t \<Rightarrow> bool" where
  "isDisjoint self other \<longleftrightarrow> r_start self > r_end other \<or> r_end self < r_start other"

text \<open>\<open>bool isAdjacent(const range<T> &other) const\<close>\<close>

definition isAdjacent :: "'a::linorder range_t \<Rightarrow> 'a range_t \<Rightarrow> bool" where
  "isAdjacent self other \<longleftrightarrow> r_start self = r_end other \<or> r_end self = r_start other"

text \<open>
  \<open>void merge(const range<T>& other)\<close>: the member function updates \<open>*this\<close>; the model
  returns the updated object.  The three assignments are kept in the order of the source:
  \<open>overlap\<close> is chosen from the ends as they are before \<open>end\<close> is overwritten.
\<close>

definition merge_member :: "'a::linorder range_t \<Rightarrow> 'a range_t \<Rightarrow> error + 'a range_t" where
  "merge_member self other =
     (if isDisjoint self other then Inl invalid_argument
      else
        let s1 = self\<lparr>r_overlap := (if r_end self < r_end other then r_overlap other else r_overlap self)\<rparr>;
            s2 = s1\<lparr>r_start := min (r_start s1) (r_start other)\<rparr>;
            s3 = s2\<lparr>r_end := max (r_end s2) (r_end other)\<rparr>
        in Inr s3)"

text \<open>\<open>static range<T> merge(const range<T>& first, const range<T>& second)\<close>:
  copy-construct \<open>output\<close> from \<open>first\<close>, merge \<open>second\<close> into it.\<close>

definition merge :: "'a::linorder range_t \<Rightarrow> 'a range_t \<Rightarrow> error + 'a range_t" where
  "merge first second = (let output = first in merge_member output second)"

text \<open>
  \<open>void intersect(const range<T>& other)\<close>.  There is no \<open>throw\<close> in the body, and
  neither the comparisons nor \<open>std::min\<close>/\<open>std::max\<close> can fail: the model is a total
  function into \<open>range_t\<close>, without an error alternative.
\<close>

definition intersect_member :: "'a::linorder range_t \<Rightarrow> 'a range_t \<Rightarrow> 'a range_t" where
  "intersect_member self other =
     (let s1 = self\<lparr>r_overlap := (if r_end self > r_end other then r_overlap other else r_overlap self)\<rparr>;
          s2 = s1\<lparr>r_start := max (r_start s1) (r_start other)\<rparr>;
          s3 = s2\<lparr>r_end := min (r_end s2) (r_end other)\<rparr>;
          s4 = s3\<lparr>r_start := min (r_start s3) (r_end s3)\<rparr>
      in s4)"

text \<open>\<open>static range<T> intersect(const range<T>& first, const range<T>& second)\<close>\<close>

definition intersect :: "'a::linorder range_t \<Rightarrow> 'a range_t \<Rightarrow> 'a range_t" where
  "intersect first second = (let output = first in intersect_member output second)"

text \<open>
  \<open>size_t size() const\<close> for integral \<open>T\<close>:
  \<open>static_cast<size_t>(end) - static_cast<size_t>(start)\<close>, a subtraction of 64-bit
  unsigned values.  The conversion \<open>static_cast<size_t>\<close> depends on the instance of
  \<open>T\<close> (zero or sign extension), so it is a parameter of the model.
\<close>

definition size_r :: "('a \<Rightarrow> 64 word) \<Rightarrow> 'a range_t \<Rightarrow> 64 word" where
  "size_r to_size_t r = to_size_t (r_end r) - to_size_t (r_start r)"

text \<open>\<open>bool overlaps(const range<T> &other) const\<close>\<close>

definition overlaps :: "('a::linorder \<Rightarrow> 64 word) \<Rightarrow> 'a range_t \<Rightarrow> 'a range_t \<Rightarrow> bool" where
  "overlaps to_size_t self other \<longleftrightarrow> size_r to_size_t (intersect self other) > 0"

subsection \<open>align_to_page\<close>

text \<open>
  \<open>template<typename TT = T> static TT align_to_page(const TT& start, const size_t &page_size)\<close>
  for integral \<open>TT\<close>.  \<open>size_t\<close> is the 64-bit unsigned type.  Two instances are modelled.

  For \<open>TT = int64_t\<close> a value is a \<open>64 word\<close> read through \<open>sint\<close>.  In
  \<open>(start / page_size) * page_size\<close> the operands have the types \<open>int64_t\<close> and
  \<open>size_t\<close>: by the usual arithmetic conversions \<open>start\<close> is converted to the unsigned
  type (its two's complement bit pattern), and the division and the multiplication are
  the unsigned ones.  The result is converted back to \<open>int64_t\<close> (same bit pattern).
  \<open>block_start > start\<close> compares two \<open>int64_t\<close>, signed.
  \<open>block_start - std::numeric_limits<TT>::lowest()\<close> is a signed subtraction (undefined
  on overflow), whose result is converted to \<open>size_t\<close> for the comparison with
  \<open>page_size\<close>.  \<open>block_start - page_size\<close> is again unsigned.
\<close>

definition lowest_i64 :: "64 word" where
  "lowest_i64 = - (2 ^ 63)"

definition align_to_page_i64 :: "64 word \<Rightarrow> 64 word \<Rightarrow> error + 64 word" where
  "align_to_page_i64 start page_size =
     (if page_size = 0 then Inl invalid_argument
      else
        let block_start = (start div page_size) * page_size
        in if start <s block_start then
             (let d = sint block_start - sint lowest_i64
              in if d < - (2 ^ 63) \<or> 2 ^ 63 \<le> d then Inl signed_overflow
                 else if (word_of_int d :: 64 word) < page_size then Inl range_error
                 else Inr (block_start - page_size))
           else Inr block_start)"

text \<open>
  For \<open>TT = uint64_t\<close> every operation is unsigned and
  \<open>std::numeric_limits<TT>::lowest()\<close> is 0.
\<close>

definition align_to_page_u64 :: "64 word \<Rightarrow> 64 word \<Rightarrow> error + 64 word" where
  "align_to_page_u64 start page_size =
     (if page_size = 0 then Inl invalid_argument
      else
        let block_start = (start div page_size) * page_size
        in if block_start > start then
             (if block_start - 0 < page_size then Inl range_error
              else Inr (block_start - page_size))
           else Inr block_start)"

section \<open>index/indexing.cpp\<close>

subsection \<open>Types and compile-time parameters\<close>

text \<open>
  \<open>typedef uint16_t ReadLengthType; typedef uint64_t KeyType; typedef uint16_t WordType;
  typedef uint64_t ReadBaseCountType; typedef std::vector<WordType> SequenceT;\<close>
\<close>

type_synonym ReadLengthType = "16 word"
type_synonym KeyType = "64 word"
type_synonym WordType = "16 word"
type_synonym ReadBaseCountType = "64 word"
type_synonym SequenceT = "WordType list"

text \<open>
  The \<open>constexpr uint8_t\<close> parameters.  All of them are below 256, so they are natural
  numbers here; the masks are \<open>WordType\<close> values
  (\<open>std::numeric_limits<WordType>::max() >> n\<close> is \<open>drop_bit n (- 1)\<close>).
\<close>

definition WORD_BITS :: nat where "WORD_BITS = 16"
definition N_K :: nat where "N_K = 21"
definition N_BITS :: nat where "N_BITS = 3"
definition N_PACKED_CHARS :: nat where "N_PACKED_CHARS = WORD_BITS div N_BITS"
definition N_PADDING_BITS :: nat where "N_PADDING_BITS = WORD_BITS mod N_BITS"
definition PADDING_MASK :: WordType where "PADDING_MASK = drop_bit N_PADDING_BITS (- 1)"
definition DIV :: nat where "DIV = N_K div N_PACKED_CHARS"
definition REM :: nat where "REM = N_K mod N_PACKED_CHARS"
definition REM_MASK :: WordType where
  "REM_MASK = (if REM \<noteq> 0 then drop_bit (WORD_BITS - REM * N_BITS) (- 1) else 0)"
definition SIG_BITS :: nat where "SIG_BITS = WORD_BITS - N_PADDING_BITS"
definition CHAR_MASK :: WordType where "CHAR_MASK = drop_bit (WORD_BITS - N_BITS) (- 1)"

subsection \<open>computeKeys<SCALAR> for one sequence\<close>

text \<open>
  \<open>seq[i]\<close> on a \<open>std::vector\<close>: defined for \<open>i < seq.size()\<close> only.  Every read of
  the packed sequence goes through \<open>rd\<close>, so that an out-of-range read is a result of
  the model and not an unspecified value.
\<close>

definition rd :: "SequenceT \<Rightarrow> nat \<Rightarrow> error + WordType" where
  "rd seq i = (if i < length seq then Inr (seq ! i) else Inl (out_of_bounds i))"

text \<open>
  What a call leaves behind: the keys stored through \<open>key_iter\<close> (\<open>*key_iter = key;
  ++key_iter\<close>), in the order of the stores, and whether the \<open>ERROR(...)\<close> line was
  logged.
\<close>

record key_output =
  written :: "KeyType list"
  reported :: bool

text \<open>\<open>*key_iter = key; ++key_iter;\<close> followed by the rest of the run.\<close>

definition emit :: "KeyType \<Rightarrow> error + key_output \<Rightarrow> error + key_output" where
  "emit k res = (case res of Inl e \<Rightarrow> Inl e | Inr r \<Rightarrow> Inr (r\<lparr>written := k # written r\<rparr>))"

text \<open>
  The first loop, \<open>for (ReadLengthType j = 0; j < DIV; ++j) { temp = seq[j];
  key |= temp << (j * SIG_BITS); }\<close>.  \<open>temp\<close> is a \<open>KeyType\<close>: the word is zero-extended
  to 64 bits, all 16 bits of it, before the shift.
\<close>

function seed_loop :: "SequenceT \<Rightarrow> nat \<Rightarrow> KeyType \<Rightarrow> error + KeyType" where
  "seed_loop seq j key =
     (if j < DIV then
        (case rd seq j of
           Inl e \<Rightarrow> Inl e
         | Inr w \<Rightarrow> seed_loop seq (j + 1) (key OR push_bit (j * SIG_BITS) (ucast w)))
      else Inr key)"
  by pat_completeness auto
termination
  by (relation "measure (\<lambda>(seq, j, key). DIV - j)") auto

text \<open>
  The second loop, \<open>for (ReadLengthType j = 1; j < key_count; j++)\<close>, with its state:
  the key, the cursor (\<open>uint8_t last_block\<close>, \<open>uint8_t last_block_pos\<close>) and the
  current word \<open>block\<close> (a \<open>KeyType\<close>).  The counter \<open>j\<close> is a 16-bit word as in the
  source; it stays below \<open>key_count\<close>, so \<open>j++\<close> never wraps.  \<open>++last_block\<close> is an
  8-bit increment and does wrap; in \<open>last_block > seq.size()\<close> and
  \<open>last_block == seq.size()\<close> it is promoted to \<open>size_t\<close> (\<open>unat\<close>).
  The two \<open>break\<close>s end the run after the store of the current key; the first one logs
  \<open>ERROR(...)\<close>, the second one is silent (its \<open>INFO(...)\<close> is commented out).
\<close>

function slide_loop ::
  "SequenceT \<Rightarrow> ReadLengthType \<Rightarrow> ReadLengthType \<Rightarrow> KeyType \<Rightarrow> 8 word \<Rightarrow> 8 word \<Rightarrow> KeyType
     \<Rightarrow> error + key_output" where
  "slide_loop seq key_count j key last_block last_block_pos block =
     (if j < key_count then
        let key1 = drop_bit N_BITS key;
            temp1 = drop_bit (unat last_block_pos * N_BITS) block;
            temp2 = temp1 AND ucast CHAR_MASK;
            temp3 = push_bit ((N_K - 1) * N_BITS) temp2;
            key2 = key1 OR temp3;
            pos1 = last_block_pos + 1
        in if unat pos1 mod N_PACKED_CHARS = 0 then
             let lb1 = last_block + 1
             in if unat lb1 > length seq then Inr \<lparr>written = [key2], reported = True\<rparr>
                else if unat lb1 = length seq then Inr \<lparr>written = [key2], reported = False\<rparr>
                else (case rd seq (unat lb1) of
                        Inl e \<Rightarrow> Inl e
                      | Inr w \<Rightarrow> emit key2 (slide_loop seq key_count (j + 1) key2 lb1 0 (ucast w)))
           else emit key2 (slide_loop seq key_count (j + 1) key2 last_block pos1 block)
      else Inr \<lparr>written = [], reported = False\<rparr>)"
  by pat_completeness auto
termination
  apply (relation "measure (\<lambda>(seq, key_count, j, key, lb, pos, block). unat key_count - unat j)")
    apply simp
   apply (simp, unat_arith)
  apply (simp, unat_arith)
  done

declare seed_loop.simps [simp del] slide_loop.simps [simp del]

text \<open>
  \<open>template<> void computeKeys<SCALAR>(const SequenceT &seq, const ReadLengthType &key_count,
  std::vector<KeyType>::iterator &key_iter)\<close>: the seed from the first \<open>DIV\<close> words, the
  remainder \<open>seq[DIV] & REM_MASK\<close> when \<open>REM > 0\<close>, the store of the seed key (whatever
  \<open>key_count\<close> is), \<open>block = seq[last_block]\<close> with \<open>last_block = DIV\<close>, and the
  second loop from \<open>j = 1\<close>.
\<close>

definition computeKeys_SCALAR :: "SequenceT \<Rightarrow> ReadLengthType \<Rightarrow> error + key_output" where
  "computeKeys_SCALAR seq key_count =
     (case seed_loop seq 0 0 of
        Inl e \<Rightarrow> Inl e
      | Inr key0 \<Rightarrow>
         (case (if REM > 0 then
                  (case rd seq DIV of
                     Inl e \<Rightarrow> Inl e
                   | Inr w \<Rightarrow> Inr (key0 OR push_bit (DIV * SIG_BITS) (ucast (w AND REM_MASK))))
                else Inr key0) of
            Inl e \<Rightarrow> Inl e
          | Inr key \<Rightarrow>
             (case rd seq DIV of
                Inl e \<Rightarrow> Inl e
              | Inr b \<Rightarrow> emit key (slide_loop seq key_count 1 key (of_nat DIV) (of_nat REM) (ucast b)))))"

subsection \<open>Key counts and offsets\<close>

text \<open>
  The caller \<open>computeKeys<SCALAR>(seqs, lengths, offsets, keys)\<close> passes
  \<open>lengths[i] - N_K + 1\<close> for \<open>key_count\<close>: an \<open>int\<close> expression (the operands are
  promoted) converted to \<open>ReadLengthType\<close>, that is, reduced modulo \<open>2^16\<close>.
\<close>

definition unit_key_count :: "ReadLengthType \<Rightarrow> ReadLengthType" where
  "unit_key_count l = word_of_int (uint l - int N_K + 1)"

text \<open>
  The prefix sum of \<open>main\<close>:
  \<open>std::vector<ReadBaseCountType> offsets(N_R + 1, 0); offsets[0] = 0;
  for (ReadCountType i = 1; i <= N_R; ++i)
    offsets[i] = offsets[i - 1] + static_cast<ReadBaseCountType>(lengths[i - 1] - N_K + 1);\<close>
  \<open>lengths[i - 1] - N_K + 1\<close> is again an \<open>int\<close>; the cast to the unsigned 64-bit type
  reduces it modulo \<open>2^64\<close> (a negative value wraps).  The number of reads \<open>N_R\<close> is the
  length of \<open>lengths\<close>, and the window width is a parameter \<open>K\<close> of the model (\<open>N_K\<close> in
  the source).  Every index of the loop is in range: \<open>i \<le> N_R\<close> in a vector of
  \<open>N_R + 1\<close> elements, \<open>i - 1 < N_R\<close> in \<open>lengths\<close>.
\<close>

definition key_count_64 :: "nat \<Rightarrow> ReadLengthType \<Rightarrow> ReadBaseCountType" where
  "key_count_64 K l = word_of_int (uint l - int K + 1)"

definition offsets_step :: "nat \<Rightarrow> ReadLengthType list \<Rightarrow> nat \<Rightarrow> ReadBaseCountType list \<Rightarrow> ReadBaseCountType list" where
  "offsets_step K lengths i offsets = offsets[i := offsets ! (i - 1) + key_count_64 K (lengths ! (i - 1))]"

definition main_offsets :: "nat \<Rightarrow> ReadLengthType list \<Rightarrow> ReadBaseCountType list" where
  "main_offsets K lengths =
     fold (offsets_step K lengths) [1 ..< Suc (length lengths)] (replicate (length lengths + 1) 0)"

section \<open>Notions used to state the properties\<close>

text \<open>
  Character \<open>s\<close> of a packed word: the \<open>N_BITS\<close> bits from bit \<open>s * N_BITS\<close> on.
  Character \<open>c\<close> of a packed sequence: slot \<open>c mod N_PACKED_CHARS\<close> of word
  \<open>c div N_PACKED_CHARS\<close>.
\<close>

definition char_of_word :: "WordType \<Rightarrow> nat \<Rightarrow> nat" where
  "char_of_word w s = (unat w div 2 ^ (s * N_BITS)) mod 2 ^ N_BITS"

definition char_at :: "SequenceT \<Rightarrow> nat \<Rightarrow> nat" where
  "char_at seq c = char_of_word (seq ! (c div N_PACKED_CHARS)) (c mod N_PACKED_CHARS)"

text \<open>
  The key of window \<open>j\<close> over a stream of characters \<open>chr\<close>:
  the sum over \<open>i < K\<close> of \<open>chr (j + i) * 2 ^ (i * charBits)\<close>, the earliest character
  in the lowest bit group.
\<close>

definition window_key :: "(nat \<Rightarrow> nat) \<Rightarrow> nat \<Rightarrow> nat" where
  "window_key chr j = (\<Sum>i<N_K. chr (j + i) * 2 ^ (i * N_BITS))"

text \<open>
  A well-formed packed sequence of \<open>L\<close> characters: \<open>ceil (L / N_PACKED_CHARS)\<close> words, the
  padding bits above the \<open>SIG_BITS\<close> significant bits of every word zero, and the unused
  high bits of a partially filled last word zero.
\<close>

definition well_formed :: "SequenceT \<Rightarrow> nat \<Rightarrow> bool" where
  "well_formed seq L \<longleftrightarrow>
     length seq = (L + N_PACKED_CHARS - 1) div N_PACKED_CHARS
   \<and> (\<forall>w \<in> set seq. drop_bit SIG_BITS w = 0)
   \<and> (L mod N_PACKED_CHARS > 0 \<longrightarrow> drop_bit ((L mod N_PACKED_CHARS) * N_BITS) (last seq) = 0)"

text \<open>
  The character that the second loop fetches for position \<open>c\<close>: its word index has gone
  through the 8-bit \<open>last_block\<close>, hence \<open>mod 256\<close>.  \<open>fetched_key seq m\<close> is the key of
  window \<open>m\<close> over the characters as fetched.
\<close>

definition char_fetched :: "SequenceT \<Rightarrow> nat \<Rightarrow> nat" where
  "char_fetched seq c = char_of_word (seq ! ((c div N_PACKED_CHARS) mod 256)) (c mod N_PACKED_CHARS)"

abbreviation (input) fetched_key :: "SequenceT \<Rightarrow> nat \<Rightarrow> KeyType" where
  "fetched_key seq m \<equiv> of_nat (window_key (char_fetched seq) m)"

text \<open>
  The number of window positions that the second loop reaches: it stops when the word
  cursor arrives at \<open>seq.size()\<close>, which an 8-bit cursor can only do for fewer than 256
  words.
\<close>

definition stop_index :: "SequenceT \<Rightarrow> ReadLengthType \<Rightarrow> nat" where
  "stop_index seq key_count =
     (if length seq < 256 then min (unat key_count) (N_PACKED_CHARS * length seq - (N_K - 1))
      else unat key_count)"

text \<open>The seed key, as the first loop and the remainder step build it (lemma \<open>computeKeys_unfold\<close>).\<close>

definition seed_key :: "SequenceT \<Rightarrow> KeyType" where
  "seed_key seq =
     ((((ucast (seq ! 0) OR push_bit 15 (ucast (seq ! 1))) OR push_bit 30 (ucast (seq ! 2)))
       OR push_bit 45 (ucast (seq ! 3))) OR push_bit 60 (ucast (seq ! 4 AND 7)))"

section \<open>Properties of the range operations\<close>

text \<open>
  C5.  For every pair of ranges \<open>a\<close>, \<open>b\<close>: \<open>merge a b\<close> throws (\<open>std::invalid_argument\<close>,
  the spec's DisjointRangeError) exactly when \<open>a.start > b.end\<close> or \<open>a.end < b.start\<close>;
  otherwise it returns the range with \<open>start = min a.start b.start\<close>,
  \<open>end = max a.end b.end\<close> and the overlap of the input with the larger end (that of
  \<open>a\<close> when the ends are equal).
\<close>

theorem merge_spec:
  fixes a b :: "'a::linorder range_t"
  shows "(merge a b = Inl invalid_argument \<longleftrightarrow> (r_start a > r_end b \<or> r_end a < r_start b))
       \<and> (\<not> (r_start a > r_end b \<or> r_end a < r_start b) \<longrightarrow>
            (\<exists>r. merge a b = Inr r
               \<and> r_start r = min (r_start a) (r_start b)
               \<and> r_end r = max (r_end a) (r_end b)
               \<and> r_overlap r = (if r_end a < r_end b then r_overlap b else r_overlap a)))"
  by (simp add: merge_def merge_member_def isDisjoint_def Let_def)

theorem merge_spec_witness:
  "merge \<lparr>r_start = 0::int, r_end = 5, r_overlap = 1\<rparr> \<lparr>r_start = 3, r_end = 8, r_overlap = 2\<rparr>
     = Inr \<lparr>r_start = 0, r_end = 8, r_overlap = 2\<rparr>
   \<and> merge \<lparr>r_start = 0::int, r_end = 5, r_overlap = 1\<rparr> \<lparr>r_start = 7, r_end = 8, r_overlap = 2\<rparr>
     = Inl invalid_argument"
  using merge_spec [of "\<lparr>r_start = 0::int, r_end = 5, r_overlap = 1\<rparr>"
                       "\<lparr>r_start = 3, r_end = 8, r_overlap = 2\<rparr>"]
        merge_spec [of "\<lparr>r_start = 0::int, r_end = 5, r_overlap = 1\<rparr>"
                       "\<lparr>r_start = 7, r_end = 8, r_overlap = 2\<rparr>"]
  by auto



text \<open>
  C10.  The overlap of \<open>intersect a b\<close> is that of the input with the smaller end:
  \<open>b.overlap\<close> when \<open>a.end > b.end\<close>, and \<open>a.overlap\<close> otherwise (also when the ends are
  equal).
\<close>

theorem intersect_overlap:
  fixes a b :: "'a::linorder range_t"
  shows "(r_end a > r_end b \<longrightarrow> r_overlap (intersect a b) = r_overlap b)
       \<and> (\<not> r_end a > r_end b \<longrightarrow> r_overlap (intersect a b) = r_overlap a)"
  by (simp add: intersect_def intersect_member_def Let_def)

theorem intersect_overlap_witness:
  "r_overlap (intersect \<lparr>r_start = 0::int, r_end = 9, r_overlap = 1\<rparr> \<lparr>r_start = 3, r_end = 8, r_overlap = 2\<rparr>) = 2
   \<and> r_overlap (intersect \<lparr>r_start = 0::int, r_end = 8, r_overlap = 1\<rparr> \<lparr>r_start = 3, r_end = 8, r_overlap = 2\<rparr>) = 1"
  using intersect_overlap [of "\<lparr>r_start = 3, r_end = 8, r_overlap = 2\<rparr>"
                              "\<lparr>r_start = 0::int, r_end = 9, r_overlap = 1\<rparr>"]
        intersect_overlap [of "\<lparr>r_start = 3, r_end = 8, r_overlap = 2\<rparr>"
                              "\<lparr>r_start = 0::int, r_end = 8, r_overlap = 1\<rparr>"]
  by simp

text \<open>
  Where \<open>align_to_page\<close> does align: for an unsigned \<open>TT\<close>, and for a signed \<open>TT\<close> and a
  non-negative \<open>start\<close>, the result is the largest multiple of the page size not
  exceeding \<open>start\<close>, and the only failure is the page size 0.
\<close>

lemma align_to_page_u64_spec:
  "(align_to_page_u64 start page_size = Inl invalid_argument \<longleftrightarrow> page_size = 0)
   \<and> (page_size \<noteq> 0 \<longrightarrow>
        (\<exists>r. align_to_page_u64 start page_size = Inr r
           \<and> r \<le> start \<and> unat page_size dvd unat r \<and> start - r < page_size))"
proof (cases "page_size = 0")
  case True
  then show ?thesis by (simp add: align_to_page_u64_def)
next
  case False
  let ?r = "start div page_size * page_size"
  have le: "?r \<le> start" by (rule word_div_mult_le)
  then have run: "align_to_page_u64 start page_size = Inr ?r"
    using False by (simp add: align_to_page_u64_def Let_def not_less)
  have "unat (start div page_size) * unat page_size \<le> unat start"
    by (simp add: unat_div)
  also have "\<dots> < 2 ^ LENGTH(64)" by (rule unsigned_less)
  finally have "unat ?r = unat (start div page_size) * unat page_size"
    by (simp only: unat_mult_lem [THEN iffD1])
  then have dvd: "unat page_size dvd unat ?r" by simp
  have "?r + start mod page_size = start" by (rule word_mod_div_equality)
  then have "start - ?r = start mod page_size" by (metis add_diff_cancel_left')
  moreover have "start mod page_size < page_size"
    using False by (intro word_mod_less_divisor) (simp add: word_neq_0_conv)
  ultimately have "start - ?r < page_size" by simp
  with False run le dvd show ?thesis by simp
qed

lemma sint_nonneg_uint:
  fixes w :: "64 word"
  assumes "0 \<le> sint w"
  shows "uint w = sint w" and "uint w < 2 ^ 63"
proof -
  have "sint w < 2 ^ (LENGTH(64) - 1)" by (rule sint_lt)
  then have lt: "sint w < 2 ^ 63" by simp
  then have "sint w < 2 ^ 64" by simp
  then have "take_bit 64 (sint w) = sint w"
    using assms by (simp add: take_bit_int_eq_self)
  then show "uint w = sint w" by (simp add: uint_sint)
  then show "uint w < 2 ^ 63" using lt by simp
qed

lemma uint_small_sint:
  fixes w :: "64 word"
  assumes "uint w < 2 ^ 63"
  shows "sint w = uint w"
proof -
  have "- (2 ^ 63) \<le> uint w" by (rule order_trans [of _ 0]) simp_all
  then show ?thesis using assms by (simp add: sint_uint signed_take_bit_int_eq_self)
qed

lemma align_to_page_i64_nonneg:
  assumes "0 \<le> sint start" and "page_size \<noteq> 0"
  shows "\<exists>r. align_to_page_i64 start page_size = Inr r
           \<and> 0 \<le> sint r \<and> sint r \<le> sint start
           \<and> uint page_size dvd sint r \<and> sint start - sint r < uint page_size"
proof -
  let ?r = "start div page_size * page_size"
  have le: "?r \<le> start" by (rule word_div_mult_le)
  then have "uint ?r \<le> uint start" by (simp add: word_le_def)
  then have "uint ?r < 2 ^ 63" using sint_nonneg_uint(2) [OF assms(1)] by simp
  then have sr: "sint ?r = uint ?r" by (rule uint_small_sint)
  have ss: "uint start = sint start" by (rule sint_nonneg_uint(1) [OF assms(1)])
  have nls: "\<not> start <s ?r"
    using \<open>uint ?r \<le> uint start\<close> by (simp add: word_sless_alt sr ss [symmetric])
  then have run: "align_to_page_i64 start page_size = Inr ?r"
    using assms(2) by (simp add: align_to_page_i64_def Let_def)
  have "unat (start div page_size) * unat page_size \<le> unat start"
    by (simp add: unat_div)
  also have "\<dots> < 2 ^ LENGTH(64)" by (rule unsigned_less)
  finally have "unat ?r = unat (start div page_size) * unat page_size"
    by (simp only: unat_mult_lem [THEN iffD1])
  then have "uint ?r = uint (start div page_size) * uint page_size"
    by (simp only: uint_nat of_nat_mult)
  then have dvd: "uint page_size dvd sint ?r" by (simp add: sr)
  have "?r + start mod page_size = start" by (rule word_mod_div_equality)
  then have "start - ?r = start mod page_size" by (metis add_diff_cancel_left')
  moreover have "start mod page_size < page_size"
    using assms(2) by (intro word_mod_less_divisor) (simp add: word_neq_0_conv)
  ultimately have "start - ?r < page_size" by simp
  then have "uint (start - ?r) < uint page_size" by (simp add: word_less_def)
  moreover have "uint (start - ?r) = uint start - uint ?r"
    using \<open>uint ?r \<le> uint start\<close> by (rule uint_sub_lem [THEN iffD1])
  ultimately have "sint start - sint ?r < uint page_size" by (simp add: sr ss)
  with run sr le dvd \<open>uint ?r \<le> uint start\<close> ss show ?thesis by simp
qed

text \<open>
  C7.  The claim fails for a negative \<open>start\<close> and a page size that does not divide
  \<open>2^64\<close>.  \<open>align_to_page<int64_t>(-5, 3)\<close> returns \<open>-7\<close>: the division is carried out
  on the unsigned conversion \<open>2^64 - 5\<close> of \<open>start\<close>, so the branch for
  \<open>block_start > start\<close> is not entered.  The value returned is below \<open>start\<close> and
  within one page of it, but it is not a multiple of the page size; the largest multiple
  of 3 not exceeding \<open>-5\<close> is \<open>-6\<close>.
\<close>

theorem align_to_page_negative_start:
  "align_to_page_i64 (- 5) 3 = Inr (- 7)
   \<and> sint (- 7 :: 64 word) = - 7
   \<and> \<not> (3 dvd sint (- 7 :: 64 word))"
  by (simp add: align_to_page_i64_def Let_def word_sless_alt)

section \<open>The prefix sum of the key counts\<close>

lemma main_offsets_fold:
  assumes "m \<le> length lengths"
  shows "fold (offsets_step K lengths) [1 ..< Suc m] (replicate (length lengths + 1) 0)
       = map (\<lambda>i. if i \<le> m then (\<Sum>j<i. key_count_64 K (lengths ! j)) else 0)
           [0 ..< length lengths + 1]"
  using assms
proof (induction m)
  case 0
  show ?case by (rule nth_equalityI) (simp_all del: upt_Suc replicate_Suc)
next
  case (Suc m)
  let ?f = "\<lambda>m i. if i \<le> m then (\<Sum>j<i. key_count_64 K (lengths ! j)) else 0"
  have IH: "fold (offsets_step K lengths) [1 ..< Suc m] (replicate (length lengths + 1) 0)
       = map (?f m) [0 ..< length lengths + 1]" using Suc by simp
  have "[1 ..< Suc (Suc m)] = [1 ..< Suc m] @ [Suc m]" by simp
  then have "fold (offsets_step K lengths) [1 ..< Suc (Suc m)] (replicate (length lengths + 1) 0)
      = offsets_step K lengths (Suc m) (map (?f m) [0 ..< length lengths + 1])"
    by (simp only: fold_append o_apply IH fold_simps)
  also have "\<dots> = map (?f (Suc m)) [0 ..< length lengths + 1]"
  proof (rule nth_equalityI)
    show "length (offsets_step K lengths (Suc m) (map (?f m) [0 ..< length lengths + 1]))
        = length (map (?f (Suc m)) [0 ..< length lengths + 1])"
      by (simp add: offsets_step_def del: upt_Suc)
  next
    fix i
    assume "i < length (offsets_step K lengths (Suc m) (map (?f m) [0 ..< length lengths + 1]))"
    then have i: "i < length lengths + 1" by (simp add: offsets_step_def del: upt_Suc)
    have m: "m < length lengths + 1" "Suc m < length lengths + 1" using Suc.prems by simp_all
    show "offsets_step K lengths (Suc m) (map (?f m) [0 ..< length lengths + 1]) ! i
        = map (?f (Suc m)) [0 ..< length lengths + 1] ! i"
    proof (cases "i = Suc m")
      case True
      then show ?thesis
        using m by (simp add: offsets_step_def nth_list_update del: upt_Suc)
    next
      case False
      then show ?thesis
        using i m by (auto simp add: offsets_step_def nth_list_update simp del: upt_Suc)
    qed
  qed
  finally show ?case .
qed

lemma main_offsets_map:
  "main_offsets K lengths
     = map (\<lambda>i. \<Sum>j<i. key_count_64 K (lengths ! j)) [0 ..< length lengths + 1]"
proof -
  have "main_offsets K lengths
      = map (\<lambda>i. if i \<le> length lengths then (\<Sum>j<i. key_count_64 K (lengths ! j)) else 0)
           [0 ..< length lengths + 1]"
    unfolding main_offsets_def by (rule main_offsets_fold) simp
  also have "\<dots> = map (\<lambda>i. \<Sum>j<i. key_count_64 K (lengths ! j)) [0 ..< length lengths + 1]"
    by (rule map_cong) auto
  finally show ?thesis .
qed

lemma main_offsets_length: "length (main_offsets K lengths) = length lengths + 1"
  by (simp only: main_offsets_map length_map length_upt)

lemma main_offsets_nth:
  assumes "i \<le> length lengths"
  shows "main_offsets K lengths ! i = (\<Sum>j<i. key_count_64 K (lengths ! j))"
proof -
  have "i < length [0 ..< length lengths + 1]" using assms by simp
  then have "main_offsets K lengths ! i = (\<lambda>i. \<Sum>j<i. key_count_64 K (lengths ! j)) ([0 ..< length lengths + 1] ! i)"
    by (simp only: main_offsets_map nth_map)
  moreover have "[0 ..< length lengths + 1] ! i = i" using assms by (simp del: upt_Suc)
  ultimately show ?thesis by simp
qed

lemma unat_key_count_64:
  assumes "K \<le> unat l + 1"
  shows "unat (key_count_64 K l) = unat l + 1 - K"
proof -
  have "uint l - int K + 1 = int (unat l + 1 - K)" using assms by simp
  then have e: "key_count_64 K l = of_nat (unat l + 1 - K)" by (simp add: key_count_64_def)
  have "unat l < 2 ^ 16" using unsigned_less [of l] by simp
  then have "unat l + 1 - K < 2 ^ 64" by simp
  then show ?thesis
    by (simp only: e unat_of_nat) (simp add: take_bit_nat_eq_self)
qed

lemma unat_offsets_sum:
  assumes "\<forall>l \<in> set lengths. K \<le> unat l + 1" and "i \<le> length lengths" and "length lengths < 2 ^ 48"
  shows "unat (\<Sum>j<i. key_count_64 K (lengths ! j)) = (\<Sum>j<i. unat (lengths ! j) + 1 - K)
       \<and> (\<Sum>j<i. unat (lengths ! j) + 1 - K) \<le> i * 2 ^ 16"
  using assms(2)
proof (induction i)
  case 0
  show ?case by simp
next
  case (Suc i)
  let ?W = "\<Sum>j<i. key_count_64 K (lengths ! j)"
  let ?S = "\<Sum>j<i. unat (lengths ! j) + 1 - K"
  let ?x = "unat (lengths ! i) + 1 - K"
  from Suc have IH: "unat ?W = ?S" "?S \<le> i * 2 ^ 16" by simp_all
  have mem: "lengths ! i \<in> set lengths" using Suc.prems by simp
  have u: "unat (key_count_64 K (lengths ! i)) = ?x"
    using assms(1) mem by (intro unat_key_count_64) simp
  have "unat (lengths ! i) < 2 ^ 16" using unsigned_less [of "lengths ! i"] by simp
  then have b: "?x \<le> 2 ^ 16" by simp
  have tot: "?S + ?x \<le> Suc i * 2 ^ 16" using IH(2) b by simp
  have "Suc i < 2 ^ 48" using Suc.prems assms(3) by simp
  then have "Suc i * 2 ^ 16 < (2 :: nat) ^ 48 * 2 ^ 16" by (intro mult_strict_right_mono) simp_all
  then have "?S + ?x < 2 ^ 64" using tot by simp
  then have "unat ?W + unat (key_count_64 K (lengths ! i)) < 2 ^ LENGTH(64)"
    by (simp only: IH(1) u) simp
  then have "unat (?W + key_count_64 K (lengths ! i)) = unat ?W + unat (key_count_64 K (lengths ! i))"
    by (simp only: unat_add_lem)
  then have "unat (\<Sum>j<Suc i. key_count_64 K (lengths ! j)) = (\<Sum>j<Suc i. unat (lengths ! j) + 1 - K)"
    by (simp only: sum.lessThan_Suc IH(1) u)
  then show ?case using tot by (simp only: sum.lessThan_Suc)
qed

text \<open>
  C3, as stated, fails.  A unit shorter than \<open>K - 1\<close> does not contribute zero keys: its
  count \<open>length - K + 1\<close> is negative and wraps.  For \<open>K = 3\<close> and lengths \<open>[10, 1]\<close> the
  offsets are \<open>[0, 8, 7]\<close> (claimed: \<open>[0, 8, 8]\<close>), so they decrease; for the source's
  \<open>N_K = 21\<close> and lengths \<open>[30, 5, 30]\<close> they are \<open>[0, 10, 2^64 - 5, 5]\<close>.
\<close>

theorem main_offsets_counterexample:
  "main_offsets 3 [10, 1] = [0, 8, 7]
   \<and> main_offsets N_K [30, 5, 30] = [0, 10, 18446744073709551611, 5]"
  by (simp add: main_offsets_def offsets_step_def key_count_64_def N_K_def upt_rec)

text \<open>
  C3, amended.  When every unit has at least \<open>K - 1\<close> characters (and there are fewer than
  \<open>2^48\<close> units, so that the 64-bit sum cannot overflow): the offsets array has one more
  element than \<open>lengths\<close>, \<open>offsets[0] = 0\<close>, \<open>offsets[i]\<close> is the sum of the key counts
  \<open>length[j] - K + 1\<close> for \<open>j < i\<close>, and the offsets are non-decreasing.  For lengths
  \<open>[10, 5, 2]\<close> and \<open>K = 3\<close> the offsets are \<open>[0, 8, 11, 11]\<close>.
\<close>

theorem main_offsets_prefix_sum:
  assumes "\<forall>l \<in> set lengths. K \<le> unat l + 1" and "length lengths < 2 ^ 48"
  shows "length (main_offsets K lengths) = length lengths + 1
       \<and> main_offsets K lengths ! 0 = 0
       \<and> (\<forall>i \<le> length lengths.
             unat (main_offsets K lengths ! i) = (\<Sum>j<i. unat (lengths ! j) + 1 - K))
       \<and> (\<forall>i < length lengths. main_offsets K lengths ! i \<le> main_offsets K lengths ! Suc i)
       \<and> main_offsets 3 [10, 5, 2] = [0, 8, 11, 11]"
proof -
  have n: "unat (main_offsets K lengths ! i) = (\<Sum>j<i. unat (lengths ! j) + 1 - K)"
    if "i \<le> length lengths" for i
    using unat_offsets_sum [OF assms(1) that assms(2)] that by (simp only: main_offsets_nth)
  have mono: "main_offsets K lengths ! i \<le> main_offsets K lengths ! Suc i" if "i < length lengths" for i
    using n [of i] n [of "Suc i"] that by (simp add: word_le_nat_alt)
  have ex: "main_offsets 3 [10, 5, 2] = [0, 8, 11, 11]"
    by (simp add: main_offsets_def offsets_step_def key_count_64_def upt_rec)
  have z: "main_offsets K lengths ! 0 = 0" by (simp add: main_offsets_nth)
  show ?thesis
    using n mono ex z by (simp only: main_offsets_length) blast
qed

theorem main_offsets_prefix_sum_witness:
  "main_offsets 3 [10, 5, 2] ! 2 \<le> main_offsets 3 [10, 5, 2] ! Suc 2
   \<and> unat (main_offsets 3 [10, 5, 2] ! 3) = 11
   \<and> length (main_offsets 3 [10, 5, 2]) = 4"
proof -
  have a: "\<forall>l \<in> set [10, 5, 2 :: ReadLengthType]. 3 \<le> unat l + 1" by simp
  have b: "length [10, 5, 2 :: ReadLengthType] < 2 ^ 48" by simp
  have "main_offsets 3 [10, 5, 2] ! 2 \<le> main_offsets 3 [10, 5, 2] ! Suc 2"
    using main_offsets_prefix_sum [OF a b] by simp
  moreover have "unat (main_offsets 3 [10, 5, 2] ! 3) = 11"
    using main_offsets_prefix_sum [OF a b] by simp
  moreover have "length (main_offsets 3 [10, 5, 2]) = 4"
    using main_offsets_prefix_sum [OF a b] by simp
  ultimately show ?thesis by blast
qed

section \<open>The key-encoding engine\<close>

subsection \<open>Arithmetic of keys\<close>

lemmas idx_consts = WORD_BITS_def N_K_def N_BITS_def N_PACKED_CHARS_def N_PADDING_BITS_def
  DIV_def REM_def REM_MASK_def SIG_BITS_def CHAR_MASK_def PADDING_MASK_def

lemma consts_vals:
  "N_PACKED_CHARS = 5" "DIV = 4" "REM = 1" "SIG_BITS = 15" "REM_MASK = 7" "CHAR_MASK = 7"
  "PADDING_MASK = 32767"
  by (simp_all add: idx_consts mask_eq_exp_minus_1)

lemma word_less_Suc_unat:
  fixes j k :: "'a::len word"
  assumes "j < k"
  shows "unat (j + 1) = Suc (unat j)"
proof -
  have "unat j < unat k" using assms by (simp add: word_less_nat_alt)
  moreover have "unat k < 2 ^ LENGTH('a)" by (rule unsigned_less)
  ultimately have "Suc (unat j) < 2 ^ LENGTH('a)" by linarith
  then have "unat j + unat (1 :: 'a word) < 2 ^ LENGTH('a)" by simp
  then have "unat (j + 1) = unat j + unat (1 :: 'a word)" by (simp only: unat_add_lem)
  then show ?thesis by simp
qed

lemma unat_plus1:
  fixes x :: "'a::len word"
  assumes "Suc (unat x) < 2 ^ LENGTH('a)"
  shows "unat (x + 1) = Suc (unat x)"
proof -
  have "unat x + unat (1 :: 'a word) < 2 ^ LENGTH('a)" using assms by simp
  then have "unat (x + 1) = unat x + unat (1 :: 'a word)" by (simp only: unat_add_lem)
  then show ?thesis by simp
qed

lemma unat_plus1_mod:
  fixes x :: "8 word"
  shows "unat (x + 1) = Suc (unat x) mod 256"
  by (simp add: unat_word_ariths)

lemma nat_or_push_bit_add:
  fixes a b :: nat
  assumes "a < 2 ^ n"
  shows "a OR push_bit n b = a + push_bit n b"
proof -
  have a: "take_bit n a = a" using assms by (simp add: take_bit_nat_eq_self)
  have lt: "bit a m \<Longrightarrow> m < n" for m using a bit_take_bit_iff [of n a m] by auto
  have "\<not> bit a m \<or> \<not> bit (push_bit n b) m" for m
    using lt [of m] by (auto simp add: bit_push_bit_iff)
  then show ?thesis by (rule disjunctive_add [symmetric])
qed

lemma unat_char_of_block:
  fixes w :: "16 word"
  shows "unat ((drop_bit s (ucast w :: 64 word)) AND 7) = (unat w div 2 ^ s) mod 8"
proof -
  have m: "(7 :: 64 word) = mask 3" by (simp add: mask_eq_exp_minus_1)
  have "unat w < 2 ^ 16" using unsigned_less [of w] by simp
  then have "unat w < 2 ^ 64" by simp
  then have u: "unat (ucast w :: 64 word) = unat w"
    by (simp add: unsigned_ucast_eq take_bit_nat_eq_self)
  have "unat ((drop_bit s (ucast w :: 64 word)) AND 7) = unat (take_bit 3 (drop_bit s (ucast w :: 64 word)))"
    by (simp only: m take_bit_eq_mask)
  also have "\<dots> = take_bit 3 (drop_bit s (unat (ucast w :: 64 word)))"
    by (simp add: unsigned_take_bit_eq unat_drop_bit_eq)
  also have "\<dots> = (unat w div 2 ^ s) mod 8"
    by (simp add: u take_bit_eq_mod drop_bit_eq_div)
  finally show ?thesis .
qed

lemma unat_slide_key:
  fixes key x :: "64 word"
  assumes "unat key < 2 ^ 63" and "unat x < 8"
  shows "unat (drop_bit 3 key OR push_bit 60 x) = unat key div 8 + unat x * 2 ^ 60"
proof -
  have "unat (drop_bit 3 key) = drop_bit 3 (unat key)"
    by (rule unat_drop_bit_eq)
  then have d: "unat (drop_bit 3 key) = unat key div 8"
    by (simp add: drop_bit_eq_div)
  have lt: "unat key div 8 < 2 ^ 60" using assms(1) by simp
  have "push_bit 60 (unat x) < (2 :: nat) ^ 64"
    using assms(2) by (simp add: push_bit_eq_mult)
  then have p: "unat (push_bit 60 x) = push_bit 60 (unat x)"
    by (simp add: unsigned_push_bit_eq take_bit_nat_eq_self)
  have "unat (drop_bit 3 key OR push_bit 60 x) = unat key div 8 OR push_bit 60 (unat x)"
    by (simp only: unsigned_or_eq d p)
  also have "\<dots> = unat key div 8 + push_bit 60 (unat x)"
    using lt by (rule nat_or_push_bit_add)
  finally show ?thesis by (simp add: push_bit_eq_mult)
qed

lemma sum8_bound:
  fixes a :: "nat \<Rightarrow> nat"
  assumes "\<And>i. i < n \<Longrightarrow> a i < 8"
  shows "(\<Sum>i<n. a i * 8 ^ i) < 8 ^ n"
  using assms
proof (induction n)
  case 0
  then show ?case by simp
next
  case (Suc n)
  have "(\<Sum>i<n. a i * 8 ^ i) < 8 ^ n" using Suc by simp
  moreover have "a n * 8 ^ n \<le> 7 * 8 ^ n" using Suc.prems [of n] by simp
  ultimately have "(\<Sum>i<n. a i * 8 ^ i) + a n * 8 ^ n < 8 ^ n + 7 * 8 ^ n"
    by (rule add_less_le_mono)
  then show ?case by simp
qed

lemma sum8_shift:
  fixes a :: "nat \<Rightarrow> nat"
  shows "(\<Sum>i<Suc n. a i * 8 ^ i) = a 0 + 8 * (\<Sum>i<n. a (Suc i) * 8 ^ i)"
  by (simp only: sum.lessThan_Suc_shift) (simp add: sum_distrib_left mult.assoc mult.left_commute)

lemma sum8_div:
  fixes a :: "nat \<Rightarrow> nat"
  assumes "a 0 < 8"
  shows "(\<Sum>i<Suc n. a i * 8 ^ i) div 8 = (\<Sum>i<n. a (Suc i) * 8 ^ i)"
proof -
  have "(\<Sum>i<Suc n. a i * 8 ^ i) = a 0 + 8 * (\<Sum>i<n. a (Suc i) * 8 ^ i)"
    by (rule sum8_shift)
  then show ?thesis using assms by simp
qed

lemma sum8_slide:
  fixes f :: "nat \<Rightarrow> nat"
  assumes "f m < 8"
  shows "(\<Sum>i<Suc n. f (m + i) * 8 ^ i) div 8 + f (m + Suc n) * 8 ^ n
       = (\<Sum>i<Suc n. f (Suc m + i) * 8 ^ i)"
proof -
  have "(\<Sum>i<Suc n. f (m + i) * 8 ^ i) div 8 = (\<Sum>i<n. f (m + Suc i) * 8 ^ i)"
    using sum8_div [of "\<lambda>i. f (m + i)" n] assms by simp
  then show ?thesis by simp
qed

lemma pow2_3: "(2 :: nat) ^ (i * 3) = 8 ^ i"
  by (simp add: mult.commute [of i 3] power_mult)

lemma window_key_alt: "window_key chr j = (\<Sum>i<Suc 20. chr (j + i) * 8 ^ i)"
proof -
  have e: "(21 :: nat) = Suc 20" by simp
  show ?thesis unfolding window_key_def N_K_def N_BITS_def pow2_3 by (simp only: e)
qed

lemma char_of_word_lt: "char_of_word w s < 8"
  by (simp add: char_of_word_def N_BITS_def)

lemma char_of_word_0: "char_of_word 0 s = 0"
  by (simp add: char_of_word_def)

lemma char_fetched_lt: "char_fetched seq c < 8"
  by (simp add: char_fetched_def char_of_word_lt)

lemma window_key_slide:
  assumes "\<And>c. chr c < 8"
  shows "window_key chr m div 8 + chr (m + 21) * 2 ^ 60 = window_key chr (Suc m)"
proof -
  have "(8 :: nat) ^ 20 = 2 ^ 60" by simp
  then show ?thesis
    using sum8_slide [of chr m 20] assms [of m] by (simp add: window_key_alt)
qed

lemma window_key_lt:
  assumes "\<And>c. chr c < 8"
  shows "window_key chr m < 2 ^ 63"
proof -
  have "(\<Sum>i<21. chr (m + i) * 8 ^ i) < 8 ^ 21"
    by (rule sum8_bound) (rule assms)
  moreover have "(8 :: nat) ^ 21 = 2 ^ 63" by simp
  ultimately show ?thesis by (simp add: window_key_alt)
qed

lemma window_key_cong:
  assumes "\<And>i. i < 21 \<Longrightarrow> f (m + i) = g (m + i)"
  shows "window_key f m = window_key g m"
  unfolding window_key_def N_K_def by (rule sum.cong) (simp_all add: assms)

lemma window_key_zero:
  assumes "\<And>i. i < 21 \<Longrightarrow> f (m + i) = 0"
  shows "window_key f m = 0"
  unfolding window_key_def N_K_def by (rule sum.neutral) (simp add: assms)

lemma char_fetched_eq:
  assumes "c < 1280"
  shows "char_fetched seq c = char_at seq c"
proof -
  have "c div 5 < 256" using assms by simp
  then show ?thesis by (simp add: char_fetched_def char_at_def consts_vals)
qed

subsection \<open>The cursor\<close>

lemma suc_div5_wrap:
  fixes c :: nat
  assumes "c mod 5 = 4"
  shows "Suc c div 5 = Suc (c div 5)" and "Suc c mod 5 = 0"
  using assms by (simp_all add: div_Suc mod_Suc)

lemma suc_div5_stay:
  fixes c :: nat
  assumes "c mod 5 \<noteq> 4"
  shows "Suc c div 5 = c div 5" and "Suc c mod 5 = Suc (c mod 5)"
  using assms by (simp_all add: div_Suc mod_Suc)

lemma cursor_wrap_mod:
  fixes c :: nat
  assumes "c mod 5 = 4"
  shows "Suc (c div 5 mod 256) mod 256 = Suc c div 5 mod 256"
  by (simp add: suc_div5_wrap(1) [OF assms] mod_Suc_eq)

lemma cursor_at_end:
  fixes c L :: nat
  assumes "Suc c div 5 mod 256 = (L + 4) div 5" and "c < L" and "c mod 5 = 4"
  shows "Suc c = L"
proof -
  let ?q = "Suc c div 5"
  have "?q * 5 + Suc c mod 5 = Suc c" by (rule div_mult_mod_eq)
  then have q5: "5 * ?q = Suc c" using suc_div5_wrap(2) [OF assms(3)] by simp
  have "?q mod 256 \<le> ?q" by simp
  then have le: "(L + 4) div 5 \<le> ?q" using assms(1) by simp
  have "(L + 4) div 5 * 5 + (L + 4) mod 5 = L + 4" by (rule div_mult_mod_eq)
  moreover have "(L + 4) mod 5 < 5" by simp
  ultimately have "L + 4 < 5 * ?q + 5" using le by linarith
  then show ?thesis using q5 assms(2) by linarith
qed

subsection \<open>The second loop\<close>

lemma emit_Inr: "emit k (Inr r) = Inr (r\<lparr>written := k # written r\<rparr>)"
  by (simp add: emit_def)

lemma rd_in: "i < length seq \<Longrightarrow> rd seq i = Inr (seq ! i)"
  by (simp add: rd_def)

lemma slide_key_step:
  fixes key :: KeyType and pos :: "8 word"
  assumes key: "unat key = window_key (char_fetched seq) m"
    and lb: "unat lb = ((m + 21) div 5) mod 256"
    and pos: "unat pos = (m + 21) mod 5"
  shows "unat (drop_bit N_BITS key OR
           push_bit ((N_K - 1) * N_BITS)
             (drop_bit (unat pos * N_BITS) (ucast (seq ! unat lb)) AND ucast CHAR_MASK))
         = window_key (char_fetched seq) (Suc m)"
proof -
  let ?x = "drop_bit (unat pos * 3) (ucast (seq ! unat lb) :: KeyType) AND 7"
  have x: "unat ?x = char_fetched seq (m + 21)"
    by (simp only: unat_char_of_block)
       (simp add: char_fetched_def char_of_word_def lb pos consts_vals N_BITS_def)
  have "unat key < 2 ^ 63"
    unfolding key by (rule window_key_lt) (rule char_fetched_lt)
  moreover have "unat ?x < 8" unfolding x by (rule char_fetched_lt)
  ultimately have "unat (drop_bit 3 key OR push_bit 60 ?x) = unat key div 8 + unat ?x * 2 ^ 60"
    by (rule unat_slide_key)
  also have "\<dots> = window_key (char_fetched seq) (Suc m)"
    unfolding key x by (rule window_key_slide) (rule char_fetched_lt)
  finally show ?thesis
    by (simp add: N_BITS_def N_K_def consts_vals)
qed

text \<open>
  On a sequence of \<open>ceil (L / 5)\<close> words and with \<open>key_count = L - 20\<close>, the loop entered
  at position \<open>j\<close> with the cursor on character \<open>20 + j\<close> writes the keys of the windows
  \<open>j, ..., key_count - 1\<close> over the characters as fetched, and logs nothing.
\<close>

lemma slide_loop_keys:
  fixes seq :: SequenceT and kc :: ReadLengthType
  assumes len: "length seq = (L + 4) div 5" and kc: "unat kc = L - 20" and L: "21 \<le> L"
  shows "n = unat kc - unat j \<Longrightarrow> 1 \<le> unat j \<Longrightarrow> unat j \<le> unat kc \<Longrightarrow>
         unat lb = ((20 + unat j) div 5) mod 256 \<Longrightarrow> unat pos = (20 + unat j) mod 5 \<Longrightarrow>
         unat lb < length seq \<Longrightarrow> block = ucast (seq ! unat lb) \<Longrightarrow>
         unat key = window_key (char_fetched seq) (unat j - 1) \<Longrightarrow>
         slide_loop seq kc j key lb pos block
           = Inr \<lparr>written = map (fetched_key seq) [unat j ..< unat kc], reported = False\<rparr>"
proof (induction n arbitrary: j key lb pos block)
  case 0
  then have "\<not> j < kc" by (simp add: word_less_nat_alt)
  moreover have "[unat j ..< unat kc] = []" using 0 by simp
  ultimately show ?case by (subst slide_loop.simps) simp
next
  case (Suc n)
  let ?c = "20 + unat j"
  let ?key2 = "drop_bit N_BITS key OR
           push_bit ((N_K - 1) * N_BITS)
             (drop_bit (unat pos * N_BITS) (ucast (seq ! unat lb)) AND ucast CHAR_MASK)"
  from Suc.prems have jlt: "j < kc" by (simp add: word_less_nat_alt)
  then have uj: "unat (j + 1) = Suc (unat j)" by (rule word_less_Suc_unat)
  from Suc.prems have ujlt: "unat j < unat kc" by simp
  have m: "unat j - 1 + 21 = ?c" "Suc (unat j - 1) = unat j" using Suc.prems by simp_all
  have k2: "unat ?key2 = window_key (char_fetched seq) (unat j)"
    using slide_key_step [of key seq "unat j - 1" lb pos] Suc.prems by (simp add: m)
  then have k2': "?key2 = fetched_key seq (unat j)" by (metis of_nat_unat ucast_id)
  have upt: "[unat j ..< unat kc] = unat j # [Suc (unat j) ..< unat kc]"
    using ujlt by (simp add: upt_conv_Cons)
  have p1: "unat (pos + 1) = Suc (?c mod 5)"
    using unat_plus1 [of pos] Suc.prems by simp
  have cL: "?c < L" using ujlt kc by simp
  have c1: "20 + unat (j + 1) = Suc ?c" using uj by simp
  show ?case
  proof (cases "?c mod 5 = 4")
    case True
    have l1: "unat (lb + 1) = Suc ?c div 5 mod 256"
      using cursor_wrap_mod [OF True] Suc.prems(4) by (simp add: unat_plus1_mod)
    have "Suc (unat lb) mod 256 \<le> Suc (unat lb)" by (rule mod_less_eq_dividend)
    then have nogt: "\<not> unat (lb + 1) > length seq"
      using Suc.prems(6) by (simp add: unat_plus1_mod)
    show ?thesis
    proof (cases "unat (lb + 1) = length seq")
      case eq: True
      have "Suc ?c = L"
        using eq l1 len cL True by (intro cursor_at_end) simp_all
      then have "Suc (unat j) = unat kc" using kc by simp
      then have "[unat j ..< unat kc] = [unat j]" using upt by simp
      then show ?thesis
        using jlt p1 True nogt eq k2' Suc.prems(7)
        by (subst slide_loop.simps) (simp add: Let_def consts_vals)
    next
      case ne: False
      then have lt: "unat (lb + 1) < length seq" using nogt by simp
      have IH: "slide_loop seq kc (j + 1) ?key2 (lb + 1) 0 (ucast (seq ! unat (lb + 1)))
                 = Inr \<lparr>written = map (fetched_key seq) [unat (j + 1) ..< unat kc], reported = False\<rparr>"
      proof (rule Suc.IH)
        show "n = unat kc - unat (j + 1)" using Suc.prems(1) uj by simp
        show "1 \<le> unat (j + 1)" using uj by simp
        show "unat (j + 1) \<le> unat kc" using uj ujlt by simp
        show "unat (lb + 1) = (20 + unat (j + 1)) div 5 mod 256" using l1 by (simp only: c1)
        show "unat (0 :: 8 word) = (20 + unat (j + 1)) mod 5"
          using suc_div5_wrap(2) [OF True] by (simp only: c1) simp
        show "unat (lb + 1) < length seq" by (rule lt)
        show "ucast (seq ! unat (lb + 1)) = (ucast (seq ! unat (lb + 1)) :: KeyType)" ..
        show "unat ?key2 = window_key (char_fetched seq) (unat (j + 1) - 1)" using k2 uj by simp
      qed
      show ?thesis
        using jlt p1 True nogt ne lt k2' upt uj Suc.prems(7) IH
        by (subst slide_loop.simps) (simp add: Let_def consts_vals rd_in emit_Inr)
    qed
  next
    case False
    have IH: "slide_loop seq kc (j + 1) ?key2 lb (pos + 1) block
                 = Inr \<lparr>written = map (fetched_key seq) [unat (j + 1) ..< unat kc], reported = False\<rparr>"
    proof (rule Suc.IH)
      show "n = unat kc - unat (j + 1)" using Suc.prems(1) uj by simp
      show "1 \<le> unat (j + 1)" using uj by simp
      show "unat (j + 1) \<le> unat kc" using uj ujlt by simp
      show "unat lb = (20 + unat (j + 1)) div 5 mod 256"
        using Suc.prems(4) suc_div5_stay(1) [OF False] by (simp only: c1)
      show "unat (pos + 1) = (20 + unat (j + 1)) mod 5"
        using p1 suc_div5_stay(2) [OF False] by (simp only: c1)
      show "unat lb < length seq" by (rule Suc.prems(6))
      show "block = ucast (seq ! unat lb)" by (rule Suc.prems(7))
      show "unat ?key2 = window_key (char_fetched seq) (unat (j + 1) - 1)" using k2 uj by simp
    qed
    have "?c mod 5 < 5" by simp
    then have "Suc (?c mod 5) mod 5 \<noteq> 0" using False by simp
    then show ?thesis
      using jlt p1 k2' upt uj Suc.prems(7) IH
      by (subst slide_loop.simps) (simp add: Let_def consts_vals emit_Inr)
  qed
qed

text \<open>
  On any sequence that has the word under the cursor, the loop reads in bounds, logs
  nothing, and writes a key for each position up to \<open>stop_index\<close>.
\<close>

lemma slide_loop_count:
  fixes seq :: SequenceT and kc :: ReadLengthType
  shows "n = unat kc - unat j \<Longrightarrow>
         unat lb = ((20 + unat j) div 5) mod 256 \<Longrightarrow> unat pos = (20 + unat j) mod 5 \<Longrightarrow>
         unat lb < length seq \<Longrightarrow>
         (length seq < 256 \<longrightarrow> (20 + unat j) div 5 < length seq) \<Longrightarrow>
         \<exists>r. slide_loop seq kc j key lb pos block = Inr r \<and> \<not> reported r
              \<and> length (written r) = stop_index seq kc - unat j"
proof (induction n arbitrary: j key lb pos block)
  case 0
  then have "\<not> j < kc" by (simp add: word_less_nat_alt)
  moreover have "stop_index seq kc \<le> unat kc" by (simp add: stop_index_def)
  then have "stop_index seq kc - unat j = 0" using 0 by simp
  ultimately show ?case by (subst slide_loop.simps) simp
next
  case (Suc n)
  let ?c = "20 + unat j"
  let ?key2 = "drop_bit N_BITS key OR
           push_bit ((N_K - 1) * N_BITS)
             (drop_bit (unat pos * N_BITS) block AND ucast CHAR_MASK)"
  from Suc.prems have jlt: "j < kc" by (simp add: word_less_nat_alt)
  then have uj: "unat (j + 1) = Suc (unat j)" by (rule word_less_Suc_unat)
  from Suc.prems have ujlt: "unat j < unat kc" by simp
  have p1: "unat (pos + 1) = Suc (?c mod 5)"
    using unat_plus1 [of pos] Suc.prems by simp
  have c1: "20 + unat (j + 1) = Suc ?c" using uj by simp
  have c5: "?c div 5 * 5 + ?c mod 5 = ?c" by (rule div_mult_mod_eq)
  have "?c mod 5 < 5" by simp
  have short: "?c < 5 * length seq" if "length seq < 256"
  proof -
    have "?c div 5 < length seq" using that Suc.prems(5) by simp
    then show ?thesis using c5 \<open>?c mod 5 < 5\<close> by linarith
  qed
  have jstop: "unat j < stop_index seq kc"
    using ujlt short by (auto simp add: stop_index_def consts_vals N_K_def)
  show ?case
  proof (cases "?c mod 5 = 4")
    case True
    have l1: "unat (lb + 1) = Suc ?c div 5 mod 256"
      using cursor_wrap_mod [OF True] Suc.prems(2) by (simp add: unat_plus1_mod)
    have "Suc (unat lb) mod 256 \<le> Suc (unat lb)" by (rule mod_less_eq_dividend)
    then have nogt: "\<not> unat (lb + 1) > length seq"
      using Suc.prems(4) by (simp add: unat_plus1_mod)
    have s5: "Suc ?c div 5 = Suc (?c div 5)" by (rule suc_div5_wrap(1) [OF True])
    have nowrap: "unat (lb + 1) = Suc (?c div 5)" if "length seq < 256"
    proof -
      have "Suc (?c div 5) \<le> length seq" using that Suc.prems(5) by simp
      then have "Suc (?c div 5) < 256" using that by simp
      then show ?thesis using l1 s5 by simp
    qed
    show ?thesis
    proof (cases "unat (lb + 1) = length seq")
      case eq: True
      have "unat (lb + 1) < 256" using unsigned_less [of "lb + 1"] by simp
      then have sh: "length seq < 256" using eq by simp
      then have "Suc (?c div 5) = length seq" using nowrap eq by simp
      then have "5 * length seq = Suc ?c" using c5 True by linarith
      then have "stop_index seq kc = Suc (unat j)"
        using sh ujlt by (simp add: stop_index_def consts_vals N_K_def)
      then show ?thesis
        using jlt p1 True nogt eq
        by (subst slide_loop.simps) (simp add: Let_def consts_vals)
    next
      case ne: False
      then have lt: "unat (lb + 1) < length seq" using nogt by simp
      have "\<exists>r. slide_loop seq kc (j + 1) ?key2 (lb + 1) 0 (ucast (seq ! unat (lb + 1))) = Inr r
                 \<and> \<not> reported r \<and> length (written r) = stop_index seq kc - unat (j + 1)"
      proof (rule Suc.IH)
        show "n = unat kc - unat (j + 1)" using Suc.prems(1) uj by simp
        show "unat (lb + 1) = (20 + unat (j + 1)) div 5 mod 256" using l1 by (simp only: c1)
        show "unat (0 :: 8 word) = (20 + unat (j + 1)) mod 5"
          using suc_div5_wrap(2) [OF True] by (simp only: c1) simp
        show "unat (lb + 1) < length seq" by (rule lt)
        show "length seq < 256 \<longrightarrow> (20 + unat (j + 1)) div 5 < length seq"
        proof
          assume "length seq < 256"
          then have "unat (lb + 1) = Suc (?c div 5)" by (rule nowrap)
          then show "(20 + unat (j + 1)) div 5 < length seq"
            using lt s5 by (simp only: c1)
        qed
      qed
      then obtain r where r: "slide_loop seq kc (j + 1) ?key2 (lb + 1) 0 (ucast (seq ! unat (lb + 1))) = Inr r"
        "\<not> reported r" "length (written r) = stop_index seq kc - unat (j + 1)" by blast
      show ?thesis
        using jlt p1 True nogt ne lt uj r jstop
        by (subst slide_loop.simps) (simp add: Let_def consts_vals rd_in emit_Inr)
    qed
  next
    case False
    have "\<exists>r. slide_loop seq kc (j + 1) ?key2 lb (pos + 1) block = Inr r
                 \<and> \<not> reported r \<and> length (written r) = stop_index seq kc - unat (j + 1)"
    proof (rule Suc.IH)
      show "n = unat kc - unat (j + 1)" using Suc.prems(1) uj by simp
      show "unat lb = (20 + unat (j + 1)) div 5 mod 256"
        using Suc.prems(2) suc_div5_stay(1) [OF False] by (simp only: c1)
      show "unat (pos + 1) = (20 + unat (j + 1)) mod 5"
        using p1 suc_div5_stay(2) [OF False] by (simp only: c1)
      show "unat lb < length seq" by (rule Suc.prems(4))
      show "length seq < 256 \<longrightarrow> (20 + unat (j + 1)) div 5 < length seq"
        using Suc.prems(5) suc_div5_stay(1) [OF False] by (simp only: c1)
    qed
    then obtain r where r: "slide_loop seq kc (j + 1) ?key2 lb (pos + 1) block = Inr r"
        "\<not> reported r" "length (written r) = stop_index seq kc - unat (j + 1)" by blast
    have "Suc (?c mod 5) mod 5 \<noteq> 0" using False \<open>?c mod 5 < 5\<close> by simp
    then show ?thesis
      using jlt p1 uj r jstop
      by (subst slide_loop.simps) (simp add: Let_def consts_vals emit_Inr)
  qed
qed

subsection \<open>The seed key\<close>

lemma seed_loop_run:
  assumes "4 \<le> length seq"
  shows "seed_loop seq 0 0 =
           Inr (((ucast (seq ! 0) OR push_bit 15 (ucast (seq ! 1))) OR push_bit 30 (ucast (seq ! 2)))
                  OR push_bit 45 (ucast (seq ! 3)))"
proof -
  have "0 < length seq" "1 < length seq" "2 < length seq" "3 < length seq"
    using assms by linarith+
  then have r: "rd seq 0 = Inr (seq ! 0)" "rd seq 1 = Inr (seq ! 1)" "rd seq 2 = Inr (seq ! 2)"
    "rd seq 3 = Inr (seq ! 3)"
    by (simp_all only: rd_in)
  have 4: "seed_loop seq 4 k = Inr k" for k
    by (subst seed_loop.simps) (simp add: consts_vals)
  have 3: "seed_loop seq 3 k = Inr (k OR push_bit 45 (ucast (seq ! 3)))" for k
    using r by (subst seed_loop.simps) (simp add: consts_vals 4)
  have 2: "seed_loop seq 2 k = Inr ((k OR push_bit 30 (ucast (seq ! 2))) OR push_bit 45 (ucast (seq ! 3)))" for k
    using r by (subst seed_loop.simps) (simp add: consts_vals 3)
  have 1: "seed_loop seq 1 k = Inr (((k OR push_bit 15 (ucast (seq ! 1))) OR push_bit 30 (ucast (seq ! 2))) OR push_bit 45 (ucast (seq ! 3)))" for k
    using r 2 by (subst seed_loop.simps) (simp add: consts_vals numeral_2_eq_2)
  show ?thesis
    using r 1 by (subst seed_loop.simps) (simp add: consts_vals)
qed

lemma computeKeys_unfold:
  assumes "5 \<le> length seq"
  shows "computeKeys_SCALAR seq kc =
           emit (seed_key seq) (slide_loop seq kc 1 (seed_key seq) 4 1 (ucast (seq ! 4)))"
proof -
  have "rd seq DIV = Inr (seq ! 4)" using assms by (simp add: rd_def consts_vals)
  moreover have "seed_loop seq 0 0 = Inr (((ucast (seq ! 0) OR push_bit 15 (ucast (seq ! 1))) OR push_bit 30 (ucast (seq ! 2)))
                  OR push_bit 45 (ucast (seq ! 3)))"
    using assms by (intro seed_loop_run) simp
  ultimately show ?thesis
    by (simp add: computeKeys_SCALAR_def seed_key_def consts_vals)
qed

lemma digits8:
  fixes w :: nat
  shows "(\<Sum>s<n. ((w div 8 ^ s) mod 8) * 8 ^ s) = w mod 8 ^ n"
proof (induction n)
  case 0
  show ?case by simp
next
  case (Suc n)
  have "w mod (8 ^ n * 8) = 8 ^ n * (w div 8 ^ n mod 8) + w mod 8 ^ n"
    by (rule mod_mult2_eq)
  then show ?case using Suc by (simp add: mult.commute)
qed

lemma sum_split:
  fixes g :: "nat \<Rightarrow> nat"
  shows "(\<Sum>i<a + b. g i) = (\<Sum>i<a. g i) + (\<Sum>i<b. g (a + i))"
  by (induction b) (simp_all add: add.assoc)

lemma char_at_block:
  assumes "i < 5"
  shows "char_at seq (5 * q + i) = (unat (seq ! q) div 8 ^ i) mod 8"
  using assms by (simp add: char_at_def char_of_word_def consts_vals N_BITS_def pow2_3)

lemma block_sum:
  assumes "unat (seq ! q) < 2 ^ 15"
  shows "(\<Sum>i<5. char_at seq (5 * q + i) * 8 ^ (5 * q + i)) = 8 ^ (5 * q) * unat (seq ! q)"
proof -
  have "(\<Sum>i<5. char_at seq (5 * q + i) * 8 ^ (5 * q + i))
        = (\<Sum>i<5. 8 ^ (5 * q) * (((unat (seq ! q) div 8 ^ i) mod 8) * 8 ^ i))"
    by (rule sum.cong) (simp_all add: char_at_block power_add)
  also have "\<dots> = 8 ^ (5 * q) * (\<Sum>i<5. ((unat (seq ! q) div 8 ^ i) mod 8) * 8 ^ i)"
    by (simp only: sum_distrib_left)
  also have "\<dots> = 8 ^ (5 * q) * (unat (seq ! q) mod 8 ^ 5)"
    by (simp only: digits8)
  also have "\<dots> = 8 ^ (5 * q) * unat (seq ! q)"
    using assms by simp
  finally show ?thesis .
qed

lemma prefix_sum_block:
  assumes "unat (seq ! q) < 2 ^ 15"
  shows "(\<Sum>i<5 * q + 5. char_at seq i * 8 ^ i)
       = (\<Sum>i<5 * q. char_at seq i * 8 ^ i) + 8 ^ (5 * q) * unat (seq ! q)"
  by (simp only: sum_split block_sum [OF assms])

lemma window0_words:
  assumes "\<And>q. q < 4 \<Longrightarrow> unat (seq ! q) < 2 ^ 15"
  shows "window_key (char_at seq) 0
       = unat (seq ! 0) + 2 ^ 15 * unat (seq ! 1) + 2 ^ 30 * unat (seq ! 2)
         + 2 ^ 45 * unat (seq ! 3) + 2 ^ 60 * (unat (seq ! 4) mod 8)"
proof -
  let ?D = "\<lambda>n. (\<Sum>i<n. char_at seq i * 8 ^ i)"
  have d5: "?D 5 = unat (seq ! 0)"
    using prefix_sum_block [of seq 0] assms [of 0] by simp
  have d10: "?D 10 = ?D 5 + 8 ^ 5 * unat (seq ! 1)"
    using prefix_sum_block [of seq 1] assms [of 1] by simp
  have d15: "?D 15 = ?D 10 + 8 ^ 10 * unat (seq ! 2)"
    using prefix_sum_block [of seq 2] assms [of 2] by simp
  have d20: "?D 20 = ?D 15 + 8 ^ 15 * unat (seq ! 3)"
    using prefix_sum_block [of seq 3] assms [of 3] by simp
  have "char_at seq 20 = unat (seq ! 4) mod 8"
    using char_at_block [of 0 seq 4] by simp
  moreover have "window_key (char_at seq) 0 = ?D (Suc 20)"
    by (simp only: window_key_alt add_0)
  moreover have "?D (Suc 20) = ?D 20 + char_at seq 20 * 8 ^ 20"
    by (simp only: sum.lessThan_Suc)
  ultimately have "window_key (char_at seq) 0 = ?D 20 + (unat (seq ! 4) mod 8) * 8 ^ 20"
    by simp
  then show ?thesis
    by (simp only: d20 d15 d10 d5) simp
qed

lemma unat_ucast16:
  fixes w :: "16 word"
  shows "unat (ucast w :: KeyType) = unat w"
proof -
  have "unat w < 2 ^ 16" using unsigned_less [of w] by simp
  then have "unat w < 2 ^ 64" by simp
  then show ?thesis by (simp add: unsigned_ucast_eq take_bit_nat_eq_self)
qed

lemma unat_or_push:
  fixes x :: KeyType and w :: "16 word"
  assumes "unat x < 2 ^ n" and "unat w < 2 ^ m" and "n + m \<le> 64"
  shows "unat (x OR push_bit n (ucast w)) = unat x + 2 ^ n * unat w"
    and "unat (x OR push_bit n (ucast w)) < 2 ^ (n + m)"
proof -
  have "2 ^ n * unat w < (2 :: nat) ^ n * 2 ^ m"
    using assms(2) by simp
  then have b: "2 ^ n * unat w < (2 :: nat) ^ (n + m)" by (simp add: power_add)
  moreover have "(2 :: nat) ^ (n + m) \<le> 2 ^ 64"
    using assms(3) by (intro power_increasing) simp_all
  ultimately have "push_bit n (unat w) < (2 :: nat) ^ 64"
    by (simp add: push_bit_eq_mult mult.commute)
  then have p: "unat (push_bit n (ucast w :: KeyType)) = push_bit n (unat w)"
    by (simp add: unsigned_push_bit_eq unat_ucast16 take_bit_nat_eq_self)
  have "unat (x OR push_bit n (ucast w)) = unat x OR push_bit n (unat w)"
    by (simp only: unsigned_or_eq p)
  also have "\<dots> = unat x + push_bit n (unat w)"
    using assms(1) by (rule nat_or_push_bit_add)
  finally show e: "unat (x OR push_bit n (ucast w)) = unat x + 2 ^ n * unat w"
    by (simp add: push_bit_eq_mult mult.commute)
  have "unat w \<le> 2 ^ m - 1" using assms(2) by simp
  then have "2 ^ n * unat w \<le> 2 ^ n * (2 ^ m - 1)" by simp
  also have "\<dots> = 2 ^ (n + m) - 2 ^ n" by (simp add: power_add right_diff_distrib')
  finally have "unat x + 2 ^ n * unat w < 2 ^ n + (2 ^ (n + m) - 2 ^ n)"
    using assms(1) by linarith
  moreover have "(2 :: nat) ^ n \<le> 2 ^ (n + m)" by simp
  ultimately show "unat (x OR push_bit n (ucast w)) < 2 ^ (n + m)"
    unfolding e by linarith
qed

lemma unat_and7:
  fixes w :: "16 word"
  shows "unat (w AND 7) = unat w mod 8"
proof -
  have m: "(7 :: 16 word) = mask 3" by (simp add: mask_eq_exp_minus_1)
  have "unat (w AND 7) = unat (take_bit 3 w)" by (simp only: m take_bit_eq_mask)
  also have "\<dots> = take_bit 3 (unat w)" by (rule unsigned_take_bit_eq)
  also have "\<dots> = unat w mod 8" by (simp add: take_bit_eq_mod)
  finally show ?thesis .
qed

lemma unat_seed_key:
  assumes "\<And>q. q < 4 \<Longrightarrow> unat (seq ! q) < 2 ^ 15"
  shows "unat (seed_key seq)
       = unat (seq ! 0) + 2 ^ 15 * unat (seq ! 1) + 2 ^ 30 * unat (seq ! 2)
         + 2 ^ 45 * unat (seq ! 3) + 2 ^ 60 * (unat (seq ! 4) mod 8)"
proof -
  let ?k0 = "ucast (seq ! 0) :: KeyType"
  let ?k1 = "?k0 OR push_bit 15 (ucast (seq ! 1))"
  let ?k2 = "?k1 OR push_bit 30 (ucast (seq ! 2))"
  let ?k3 = "?k2 OR push_bit 45 (ucast (seq ! 3))"
  have k0: "unat ?k0 < 2 ^ 15" using assms [of 0] by (simp add: unat_ucast16)
  have k1: "unat ?k1 = unat ?k0 + 2 ^ 15 * unat (seq ! 1)" "unat ?k1 < 2 ^ (15 + 15)"
    using k0 assms [of 1] by (simp_all only: unat_or_push [where m = 15]) simp_all
  have k2: "unat ?k2 = unat ?k1 + 2 ^ 30 * unat (seq ! 2)" "unat ?k2 < 2 ^ (30 + 15)"
    using k1(2) assms [of 2] unat_or_push [of ?k1 30 "seq ! 2" 15] by simp_all
  have k3: "unat ?k3 = unat ?k2 + 2 ^ 45 * unat (seq ! 3)" "unat ?k3 < 2 ^ (45 + 15)"
    using k2(2) assms [of 3] unat_or_push [of ?k2 45 "seq ! 3" 15] by simp_all
  have "unat (seq ! 4 AND 7) < 2 ^ 3" by (simp add: unat_and7)
  then have "unat (?k3 OR push_bit 60 (ucast (seq ! 4 AND 7))) = unat ?k3 + 2 ^ 60 * unat (seq ! 4 AND 7)"
    using k3(2) unat_or_push(1) [of ?k3 60 "seq ! 4 AND 7" 3] by simp
  then show ?thesis
    by (simp only: seed_key_def k3(1) k2(1) k1(1) unat_ucast16 unat_and7)
qed

lemma padding_zero_lt:
  fixes w :: WordType
  assumes "drop_bit n w = 0"
  shows "unat w < 2 ^ n"
proof -
  have "unat (drop_bit n w) = drop_bit n (unat w)" by (rule unat_drop_bit_eq)
  then have "unat w div 2 ^ n = 0" using assms by (simp add: drop_bit_eq_div)
  then show ?thesis by (simp add: div_eq_0_iff)
qed

lemma well_formed_length:
  assumes "well_formed seq L"
  shows "length seq = (L + 4) div 5"
  using assms by (simp add: well_formed_def consts_vals)

lemma well_formed_word:
  assumes "well_formed seq L" and "q < length seq"
  shows "unat (seq ! q) < 2 ^ 15"
proof -
  have "drop_bit 15 (seq ! q) = 0"
    using assms by (simp add: well_formed_def consts_vals)
  then show ?thesis by (rule padding_zero_lt)
qed

subsection \<open>What computeKeys<SCALAR> writes\<close>

lemma computeKeys_count:
  assumes "5 \<le> length seq"
  shows "\<exists>r. computeKeys_SCALAR seq kc = Inr r \<and> \<not> reported r
            \<and> hd (written r) = seed_key seq
            \<and> length (written r) = max 1 (stop_index seq kc)"
proof -
  have "\<exists>r. slide_loop seq kc 1 (seed_key seq) 4 1 (ucast (seq ! 4)) = Inr r \<and> \<not> reported r
              \<and> length (written r) = stop_index seq kc - unat (1 :: ReadLengthType)"
    using assms by (intro slide_loop_count [where n = "unat kc - 1"]) simp_all
  then obtain r where r: "slide_loop seq kc 1 (seed_key seq) 4 1 (ucast (seq ! 4)) = Inr r"
    "\<not> reported r" "length (written r) = stop_index seq kc - 1" by auto
  show ?thesis
    using r by (simp add: computeKeys_unfold [OF assms] emit_Inr)
qed

text \<open>
  For a well-formed sequence of \<open>L \<ge> K\<close> characters and \<open>key_count = L - K + 1\<close> the keys
  written are those of the windows \<open>0, ..., L - K\<close> over the characters as fetched.
\<close>

lemma computeKeys_keys:
  assumes wf: "well_formed seq L" and L: "21 \<le> L" and kc: "unat kc = L - 20"
  shows "computeKeys_SCALAR seq kc
           = Inr \<lparr>written = map (fetched_key seq) [0 ..< unat kc], reported = False\<rparr>"
proof -
  have len: "length seq = (L + 4) div 5" using wf by (rule well_formed_length)
  then have len5: "5 \<le> length seq" using L by simp
  have w: "unat (seq ! q) < 2 ^ 15" if "q < 4" for q
    using wf by (rule well_formed_word) (use that len5 in simp)
  have "unat (seed_key seq) = window_key (char_at seq) 0"
    using w by (simp only: unat_seed_key window0_words)
  also have "\<dots> = window_key (char_fetched seq) 0"
    by (rule window_key_cong) (simp add: char_fetched_eq)
  finally have seed: "unat (seed_key seq) = window_key (char_fetched seq) 0" .
  then have seed': "seed_key seq = fetched_key seq 0" by (metis of_nat_unat ucast_id)
  have "slide_loop seq kc 1 (seed_key seq) 4 1 (ucast (seq ! 4))
          = Inr \<lparr>written = map (fetched_key seq) [unat (1 :: ReadLengthType) ..< unat kc], reported = False\<rparr>"
    using len kc L
  proof (rule slide_loop_keys)
    show "unat kc - 1 = unat kc - unat (1 :: ReadLengthType)" by simp
    show "1 \<le> unat (1 :: ReadLengthType)" by simp
    show "unat (1 :: ReadLengthType) \<le> unat kc" using kc L by simp
    show "unat (4 :: 8 word) = (20 + unat (1 :: ReadLengthType)) div 5 mod 256" by simp
    show "unat (1 :: 8 word) = (20 + unat (1 :: ReadLengthType)) mod 5" by simp
    show "unat (4 :: 8 word) < length seq" using len5 by simp
    show "(ucast (seq ! 4) :: KeyType) = ucast (seq ! unat (4 :: 8 word))" by simp
    show "unat (seed_key seq) = window_key (char_fetched seq) (unat (1 :: ReadLengthType) - 1)"
      using seed by simp
  qed
  moreover have "[0 ..< unat kc] = 0 # [1 ..< unat kc]"
    using kc L by (simp add: upt_conv_Cons)
  ultimately show ?thesis
    by (simp add: computeKeys_unfold [OF len5] emit_Inr seed')
qed

text \<open>
  Up to 1280 characters (256 words) the 8-bit word cursor does not wrap before the last
  key, the characters fetched are the characters of the sequence, and the keys are the
  window sums of the specification, in window order.
\<close>

lemma computeKeys_short_reads:
  assumes wf: "well_formed seq L" and L: "21 \<le> L" "L \<le> 1280" and kc: "unat kc = L - 20"
  shows "computeKeys_SCALAR seq kc
           = Inr \<lparr>written = map (\<lambda>j. of_nat (window_key (char_at seq) j)) [0 ..< L - 20],
                  reported = False\<rparr>"
proof -
  have "window_key (char_fetched seq) j = window_key (char_at seq) j" if "j < L - 20" for j
    by (rule window_key_cong) (rule char_fetched_eq, use that L in simp)
  then have "map (fetched_key seq) [0 ..< L - 20] = map (\<lambda>j. of_nat (window_key (char_at seq) j)) [0 ..< L - 20]"
    by simp
  then show ?thesis
    using computeKeys_keys [OF wf L(1) kc] kc by simp
qed

subsection \<open>The claims on the key-encoding engine\<close>

text \<open>
  C1.  The claim holds up to 1280 characters (\<open>computeKeys_short_reads\<close>) and fails beyond:
  \<open>last_block\<close> is a \<open>uint8_t\<close>, and after word 255 it wraps to 0, so that the characters
  from position 1280 on are fetched from the beginning of the sequence again.  The failing
  input is the well-formed sequence of 1281 characters that are all 0 but the last, which
  is 1 (256 words 0, then the word 1), with \<open>key_count = 1281 - 21 + 1 = 1261\<close>: the code
  writes 1261 keys 0, and the key of the last window (position 1260) should be
  \<open>1 * 2 ^ 60\<close>.
\<close>

theorem computeKeys_cursor_wraps:
  "well_formed (replicate 256 0 @ [1]) 1281
   \<and> computeKeys_SCALAR (replicate 256 0 @ [1]) 1261
       = Inr \<lparr>written = replicate 1261 0, reported = False\<rparr>
   \<and> window_key (char_at (replicate 256 0 @ [1])) 1260 = 2 ^ 60"
proof -
  let ?seq = "replicate 256 0 @ [1] :: SequenceT"
  have wf: "well_formed ?seq 1281"
    by (simp add: well_formed_def consts_vals N_BITS_def)
  have z: "?seq ! q = 0" if "q < 256" for q
    using that by (simp add: nth_append)
  have "char_fetched ?seq c = 0" for c
    unfolding char_fetched_def consts_vals by (simp only: z char_of_word_0 mod_less_divisor zero_less_numeral)
  then have "fetched_key ?seq m = 0" for m
    by (simp add: window_key_zero)
  then have "map (fetched_key ?seq) [0 ..< 1261] = replicate 1261 0"
    by (simp add: map_replicate_const)
  moreover have "computeKeys_SCALAR ?seq 1261
          = Inr \<lparr>written = map (fetched_key ?seq) [0 ..< unat (1261 :: ReadLengthType)], reported = False\<rparr>"
    using wf by (rule computeKeys_keys) simp_all
  ultimately have run: "computeKeys_SCALAR ?seq 1261
          = Inr \<lparr>written = replicate 1261 0, reported = False\<rparr>"
    by simp
  have "char_at ?seq (1260 + i) = 0" if "i < 20" for i
  proof -
    have "(1260 + i) div 5 < 256" using that by simp
    then show ?thesis unfolding char_at_def consts_vals by (simp only: z char_of_word_0)
  qed
  then have "(\<Sum>i<20. char_at ?seq (1260 + i) * 8 ^ i) = 0" by simp
  moreover have "char_at ?seq 1280 = 1"
    by (simp add: char_at_def consts_vals char_of_word_def nth_append N_BITS_def)
  moreover have "window_key (char_at ?seq) 1260
        = (\<Sum>i<20. char_at ?seq (1260 + i) * 8 ^ i) + char_at ?seq (1260 + 20) * 8 ^ 20"
    by (simp only: window_key_alt sum.lessThan_Suc)
  ultimately have "window_key (char_at ?seq) 1260 = 2 ^ 60" by simp
  with wf run show ?thesis by simp
qed

theorem computeKeys_cursor_wraps_witness:
  "computeKeys_SCALAR (replicate 256 0 @ [1]) 1261
     \<noteq> Inr \<lparr>written = map (\<lambda>j. of_nat (window_key (char_at (replicate 256 0 @ [1])) j)) [0 ..< 1261],
            reported = False\<rparr>"
proof
  let ?seq = "replicate 256 0 @ [1] :: SequenceT"
  let ?spec = "map (\<lambda>j. of_nat (window_key (char_at ?seq) j) :: KeyType) [0 ..< 1261]"
  assume "computeKeys_SCALAR ?seq 1261 = Inr \<lparr>written = ?spec, reported = False\<rparr>"
  then have "replicate 1261 (0 :: KeyType) = ?spec"
    using computeKeys_cursor_wraps by simp
  then have "replicate 1261 (0 :: KeyType) ! 1260 = ?spec ! 1260" by (rule arg_cong)
  moreover have "?spec ! 1260 = of_nat (window_key (char_at ?seq) 1260)"
    by (simp del: upt_Suc replicate_Suc)
  moreover have "window_key (char_at ?seq) 1260 = 2 ^ 60"
    using computeKeys_cursor_wraps by simp
  ultimately show False by simp
qed

text \<open>
  C2, as stated, fails for units shorter than \<open>K\<close>.  The seed key is computed from the
  words \<open>0, ..., DIV\<close> and stored before \<open>key_count\<close> is looked at.  The well-formed
  sequence of 2 characters has one word: the seed loop reads \<open>seq[1]\<close> out of range,
  whether \<open>key_count\<close> is 0 or the value 65518 that the caller computes for length 2.
  And on five words with \<open>key_count = 0\<close> one key is written, not none.
\<close>

theorem computeKeys_short_unit_counterexample:
  "well_formed [0] 2
   \<and> computeKeys_SCALAR [0] 0 = Inl (out_of_bounds 1)
   \<and> unit_key_count 2 = 65518
   \<and> computeKeys_SCALAR [0] (unit_key_count 2) = Inl (out_of_bounds 1)
   \<and> computeKeys_SCALAR [0, 0, 0, 0, 0] 0 = Inr \<lparr>written = [0], reported = False\<rparr>"
proof -
  have wf: "well_formed [0] 2"
    by (simp add: well_formed_def consts_vals N_BITS_def)
  have "seed_loop [0] 1 k = Inl (out_of_bounds 1)" for k
    by (subst seed_loop.simps) (simp add: consts_vals rd_def)
  then have "seed_loop [0] 0 0 = Inl (out_of_bounds 1)"
    by (subst seed_loop.simps) (simp add: consts_vals rd_def)
  then have oob: "computeKeys_SCALAR [0] kc = Inl (out_of_bounds 1)" for kc
    by (simp add: computeKeys_SCALAR_def)
  have u: "unit_key_count 2 = 65518"
    by (simp add: unit_key_count_def N_K_def)
  have "slide_loop [0, 0, 0, 0, 0] 0 1 k 4 1 b = Inr \<lparr>written = [], reported = False\<rparr>" for k b
    by (subst slide_loop.simps) simp
  then have "computeKeys_SCALAR [0, 0, 0, 0, 0] 0 = Inr \<lparr>written = [0], reported = False\<rparr>"
    by (simp add: computeKeys_unfold seed_key_def emit_Inr)
  with wf oob u show ?thesis by simp
qed

text \<open>
  C2, amended.  For every well-formed packed sequence of \<open>L \<ge> K\<close> characters (with
  \<open>L - K + 1\<close> a \<open>ReadLengthType\<close> value) the engine, called with
  \<open>key_count = L - K + 1\<close>, returns normally and writes exactly \<open>L - K + 1\<close> keys; when
  all the words of the sequence are zero, all these keys are 0.
\<close>

theorem computeKeys_key_count:
  assumes "well_formed seq L" and "N_K \<le> L" and "L - N_K + 1 < 2 ^ 16"
  shows "\<exists>r. computeKeys_SCALAR seq (of_nat (L - N_K + 1)) = Inr r
            \<and> length (written r) = L - N_K + 1
            \<and> ((\<forall>w \<in> set seq. w = 0) \<longrightarrow> (\<forall>k \<in> set (written r). k = 0))"
proof -
  define kc where "kc = (of_nat (L - N_K + 1) :: ReadLengthType)"
  have L: "21 \<le> L" using assms(2) by (simp add: N_K_def)
  have eq: "L - N_K + 1 = L - 20" using L by (simp add: N_K_def)
  have "L - 20 < 2 ^ 16" using assms(3) by (simp only: eq)
  then have "unat (of_nat (L - 20) :: ReadLengthType) = L - 20"
    by (simp add: unat_of_nat take_bit_nat_eq_self)
  then have kc: "unat kc = L - 20" unfolding kc_def by (simp only: eq)
  have run: "computeKeys_SCALAR seq kc
          = Inr \<lparr>written = map (fetched_key seq) [0 ..< unat kc], reported = False\<rparr>"
    using assms(1) L kc by (rule computeKeys_keys)
  have len: "length seq = (L + 4) div 5" using assms(1) by (rule well_formed_length)
  have zero: "fetched_key seq m = 0" if all0: "\<forall>w \<in> set seq. w = 0" and m: "m < L - 20" for m
  proof -
    have "char_fetched seq (m + i) = 0" if "i < 21" for i
    proof -
      have "m + i < L" using m that by simp
      then have "(m + i) div 5 < (L + 4) div 5"
        using div_mult_mod_eq [of "m + i" 5] div_mult_mod_eq [of "L + 4" 5] by simp
      moreover have "(m + i) div 5 mod 256 \<le> (m + i) div 5" by (rule mod_less_eq_dividend)
      ultimately have "(m + i) div 5 mod 256 < length seq" using len by simp
      then have "seq ! ((m + i) div 5 mod 256) = 0" using all0 by simp
      then show ?thesis by (simp add: char_fetched_def consts_vals char_of_word_0)
    qed
    then show ?thesis by (simp add: window_key_zero)
  qed
  have "\<exists>r. computeKeys_SCALAR seq kc = Inr r
            \<and> length (written r) = L - 20
            \<and> ((\<forall>w \<in> set seq. w = 0) \<longrightarrow> (\<forall>k \<in> set (written r). k = 0))"
    using run kc zero by auto
  then show ?thesis unfolding kc_def by (simp only: eq)
qed

theorem computeKeys_key_count_witness:
  "well_formed [0, 0, 0, 0, 0] 23 \<and> N_K \<le> 23
   \<and> (\<exists>r. computeKeys_SCALAR [0, 0, 0, 0, 0] 3 = Inr r \<and> length (written r) = 3
          \<and> (\<forall>k \<in> set (written r). k = 0))"
proof -
  have wf: "well_formed [0, 0, 0, 0, 0] 23"
    by (simp add: well_formed_def consts_vals N_BITS_def)
  have k: "N_K \<le> 23" by (simp add: N_K_def)
  have "(23 :: nat) - N_K + 1 < 2 ^ 16" by (simp add: N_K_def)
  with wf k show ?thesis
    using computeKeys_key_count [of "[0, 0, 0, 0, 0]" 23] by (simp add: N_K_def)
qed

text \<open>
  C4, as stated, fails: the seed is read without a check.  On four words the first loop
  is in range and \<open>seq[DIV]\<close> (index 4) is not.  And where the loop does stop at the end
  of the array, nothing is reported: on six words (30 characters, 10 windows) with
  \<open>key_count = 100\<close> the run ends after 10 keys with no \<open>ERROR\<close> line.
\<close>

theorem computeKeys_seed_out_of_bounds:
  "computeKeys_SCALAR [1, 2, 3, 4] 100 = Inl (out_of_bounds 4)
   \<and> computeKeys_SCALAR [0, 0, 0, 0, 0, 0] 100 = Inr \<lparr>written = replicate 10 0, reported = False\<rparr>"
proof -
  have "rd [1, 2, 3, 4] DIV = Inl (out_of_bounds 4)" by (simp add: rd_def consts_vals)
  moreover have "seed_loop [1, 2, 3, 4] 0 0
      = Inr (((ucast ([1, 2, 3, 4 :: WordType] ! 0) OR push_bit 15 (ucast ([1, 2, 3, 4 :: WordType] ! 1)))
              OR push_bit 30 (ucast ([1, 2, 3, 4 :: WordType] ! 2)))
              OR push_bit 45 (ucast ([1, 2, 3, 4 :: WordType] ! 3)))"
    by (rule seed_loop_run) simp
  ultimately have "computeKeys_SCALAR [1, 2, 3, 4] 100 = Inl (out_of_bounds 4)"
    by (simp add: computeKeys_SCALAR_def consts_vals)
  moreover have "computeKeys_SCALAR [0, 0, 0, 0, 0, 0] 100
      = Inr \<lparr>written = replicate 10 0, reported = False\<rparr>"
    by code_simp
  ultimately show ?thesis by simp
qed

text \<open>
  C4, amended.  For every packed-word array of at least \<open>DIV + 1\<close> words and every
  \<open>key_count\<close>, \<open>computeKeys<SCALAR>\<close> never reads at an index \<open>\<ge> seq.size()\<close> (it
  returns normally).  When the word cursor arrives at the end of the array the loop
  stops and the remaining window positions are left unwritten: the number of keys
  written is \<open>max 1 (stop_index seq key_count)\<close>, at most \<open>max 1 key_count\<close>.
\<close>

theorem computeKeys_in_bounds:
  assumes "DIV + 1 \<le> length seq"
  shows "\<exists>r. computeKeys_SCALAR seq key_count = Inr r
            \<and> length (written r) = max 1 (stop_index seq key_count)
            \<and> length (written r) \<le> max 1 (unat key_count)"
proof -
  have 5: "5 \<le> length seq" using assms by (simp add: consts_vals)
  have "stop_index seq key_count \<le> unat key_count" by (simp add: stop_index_def)
  then show ?thesis using computeKeys_count [OF 5, of key_count] by auto
qed

theorem computeKeys_in_bounds_witness:
  "DIV + 1 \<le> length [0, 0, 0, 0, 0, 0 :: WordType]
   \<and> (\<exists>r. computeKeys_SCALAR [0, 0, 0, 0, 0, 0] 100 = Inr r \<and> length (written r) = 10)"
proof -
  have a: "DIV + 1 \<le> length [0, 0, 0, 0, 0, 0 :: WordType]" by (simp add: consts_vals)
  have "stop_index [0, 0, 0, 0, 0, 0] 100 = 10"
    by (simp add: stop_index_def consts_vals N_K_def)
  then show ?thesis
    using a computeKeys_in_bounds [OF a, of 100] by auto
qed

text \<open>
  C8, as stated, fails: the words \<open>0, ..., DIV - 1\<close> are pasted into the seed key whole.
  The arrays \<open>[0x8000, 0, 0, 0, 0]\<close> and \<open>[0, 0, 0, 0, 0]\<close> agree on all significant bits and
  differ in the padding bit of word 0; their seed keys are \<open>2 ^ 15\<close> and 0.
\<close>

theorem seed_key_padding_counterexample:
  "(32768 :: WordType) AND PADDING_MASK = 0 AND PADDING_MASK
   \<and> computeKeys_SCALAR [32768, 0, 0, 0, 0] 1 = Inr \<lparr>written = [32768], reported = False\<rparr>
   \<and> computeKeys_SCALAR [0, 0, 0, 0, 0] 1 = Inr \<lparr>written = [0], reported = False\<rparr>"
proof -
  have "slide_loop s 1 1 k 4 1 b = Inr \<lparr>written = [], reported = False\<rparr>" for s k b
    by (subst slide_loop.simps) simp
  then show ?thesis
    by (simp add: computeKeys_unfold seed_key_def emit_Inr consts_vals)
qed

text \<open>
  C8, amended.  The seed-key computation masks the final partial word only (with
  \<open>REM_MASK\<close>): on every packed-word array of at least \<open>DIV + 1\<close> words a first key is
  written, and it is the seed key \<open>seed_key seq\<close>, built from the whole first \<open>DIV\<close>
  words and from \<open>seq[DIV] & REM_MASK\<close>.  So two such arrays that agree on the first
  \<open>DIV\<close> words, padding bits included, and on the \<open>REM * N_BITS\<close> low bits of word
  \<open>DIV\<close>, whatever its other bits are, have the same first (seed) key.
\<close>

theorem seed_key_masks_final_word:
  assumes "DIV + 1 \<le> length seq1" and "DIV + 1 \<le> length seq2"
    and "take DIV seq1 = take DIV seq2"
    and "seq1 ! DIV AND REM_MASK = seq2 ! DIV AND REM_MASK"
  shows "\<exists>r1 r2. computeKeys_SCALAR seq1 kc1 = Inr r1 \<and> computeKeys_SCALAR seq2 kc2 = Inr r2
            \<and> written r1 \<noteq> [] \<and> written r2 \<noteq> []
            \<and> hd (written r1) = seed_key seq1 \<and> hd (written r2) = seed_key seq2
            \<and> hd (written r1) = hd (written r2)"
proof -
  have 5: "5 \<le> length seq1" "5 \<le> length seq2" using assms(1,2) by (simp_all add: consts_vals)
  have "seq1 ! i = seq2 ! i" if "i < 4" for i
    using assms(3) that by (metis consts_vals(2) nth_take)
  then have "seq1 ! 0 = seq2 ! 0" "seq1 ! 1 = seq2 ! 1" "seq1 ! 2 = seq2 ! 2" "seq1 ! 3 = seq2 ! 3"
    by simp_all
  moreover have "seq1 ! 4 AND 7 = seq2 ! 4 AND 7" using assms(4) by (simp add: consts_vals)
  ultimately have seed: "seed_key seq1 = seed_key seq2" by (simp only: seed_key_def)
  obtain r1 where r1: "computeKeys_SCALAR seq1 kc1 = Inr r1" "hd (written r1) = seed_key seq1"
    "length (written r1) = max 1 (stop_index seq1 kc1)"
    using computeKeys_count [OF 5(1), of kc1] by blast
  obtain r2 where r2: "computeKeys_SCALAR seq2 kc2 = Inr r2" "hd (written r2) = seed_key seq2"
    "length (written r2) = max 1 (stop_index seq2 kc2)"
    using computeKeys_count [OF 5(2), of kc2] by blast
  have "0 < length (written r1)" "0 < length (written r2)"
    by (simp_all only: r1(3) r2(3))
  then have ne: "written r1 \<noteq> []" "written r2 \<noteq> []" by simp_all
  have "hd (written r1) = hd (written r2)" by (simp only: r1(2) r2(2) seed)
  with r1(1,2) r2(1,2) ne show ?thesis by blast
qed

theorem seed_key_masks_final_word_witness:
  "DIV + 1 \<le> length [1, 2, 3, 4, 5 :: WordType] \<and> DIV + 1 \<le> length [1, 2, 3, 4, 65533 :: WordType]
   \<and> take DIV [1, 2, 3, 4, 5 :: WordType] = take DIV [1, 2, 3, 4, 65533]
   \<and> [1, 2, 3, 4, 5 :: WordType] ! DIV AND REM_MASK = [1, 2, 3, 4, 65533] ! DIV AND REM_MASK
   \<and> (\<exists>r1 r2. computeKeys_SCALAR [1, 2, 3, 4, 5] 1 = Inr r1
          \<and> computeKeys_SCALAR [1, 2, 3, 4, 65533] 1 = Inr r2
          \<and> written r1 \<noteq> [] \<and> written r2 \<noteq> []
          \<and> hd (written r1) = seed_key [1, 2, 3, 4, 5]
          \<and> hd (written r1) = hd (written r2))"
proof -
  have a: "DIV + 1 \<le> length [1, 2, 3, 4, 5 :: WordType]"
    and b: "DIV + 1 \<le> length [1, 2, 3, 4, 65533 :: WordType]"
    and c: "take DIV [1, 2, 3, 4, 5 :: WordType] = take DIV [1, 2, 3, 4, 65533]"
    and d: "[1, 2, 3, 4, 5 :: WordType] ! DIV AND REM_MASK = [1, 2, 3, 4, 65533] ! DIV AND REM_MASK"
    by (simp_all add: consts_vals)
  from seed_key_masks_final_word [OF a b c d, of 1 1] a b c d show ?thesis by blast
qed

end
